theory Spec2Isabelle
  imports Main
begin

section \<open>Go strings and the runtime failures of the string operations\<close>

text \<open>
  A Go string is a sequence of bytes, \<open>len\<close> counts bytes and slicing cuts bytes, so a Go
  string is a \<open>char list\<close> here. Go's \<open>int\<close> is modelled by \<open>int\<close>: the only arithmetic
  of the program is \<open>len(s) - k\<close> for \<open>k \<le> 4\<close>, which cannot leave the 64-bit range.
  A run either returns, or panics (\<open>Panic\<close>), or recurses for ever on a cyclic value
  (\<open>Diverged\<close>, reported when the recursion depth allowed to the model is used up).
  \<open>BadHeap\<close> marks a store that no Go program can build (a dangling reference).
\<close>

datatype error = Panic | Diverged | BadHeap

definition bindE :: "error + 'a \<Rightarrow> ('a \<Rightarrow> error + 'b) \<Rightarrow> error + 'b" where
  "bindE x f = (case x of Inl e \<Rightarrow> Inl e | Inr a \<Rightarrow> f a)"

definition len :: "string \<Rightarrow> int" where
  "len s = int (length s)"

text \<open>\<open>s[lo:hi]\<close>: panics unless \<open>0 \<le> lo \<le> hi \<le> len(s)\<close>.\<close>

definition substr :: "string \<Rightarrow> int \<Rightarrow> int \<Rightarrow> error + string" where
  "substr s lo hi =
     (if 0 \<le> lo \<and> lo \<le> hi \<and> hi \<le> len s
      then Inr (take (nat (hi - lo)) (drop (nat lo) s))
      else Inl Panic)"

text \<open>\<open>strings.Repeat(s, count)\<close>: panics on a negative count.\<close>

definition Repeat :: "string \<Rightarrow> int \<Rightarrow> error + string" where
  "Repeat s count = (if count < 0 then Inl Panic else Inr (concat (replicate (nat count) s)))"

text \<open>
  \<open>strings.Split(s, sep)\<close> for a separator of one byte, the only use the program makes of
  it (\<open>"@"\<close> and \<open>";"\<close>): the pieces between the separators, one more than there are
  separators, so that \<open>Split("", sep)\<close> is the list holding the empty string.
\<close>

fun splitAcc :: "char \<Rightarrow> string \<Rightarrow> string \<Rightarrow> string list" where
  "splitAcc sep acc [] = [rev acc]"
| "splitAcc sep acc (c # cs) =
     (if c = sep then rev acc # splitAcc sep [] cs else splitAcc sep (c # acc) cs)"

definition Split :: "string \<Rightarrow> char \<Rightarrow> string list" where
  "Split s sep = splitAcc sep [] s"

definition HasPrefix :: "string \<Rightarrow> string \<Rightarrow> bool" where
  "HasPrefix s p = (take (length p) s = p)"

definition TrimPrefix :: "string \<Rightarrow> string \<Rightarrow> string" where
  "TrimPrefix s p = (if HasPrefix s p then drop (length p) s else s)"

section \<open>The strategy registry\<close>

text \<open>
  \<open>type MaskFunc func(string) string\<close>. A strategy may panic, so it returns a sum.
  \<open>maskRegistry\<close> is a Go map from names to strategies.
\<close>

type_synonym MaskFunc = "string \<Rightarrow> error + string"
type_synonym registry = "string \<rightharpoonup> MaskFunc"

text \<open>The zero value of a function type is \<open>nil\<close>; calling it panics.\<close>

definition nilFunc :: MaskFunc where
  "nilFunc s = Inl Panic"

text \<open>The index expression \<open>m[k]\<close> read as a value: the zero value when the key is absent.\<close>

definition regIndex :: "registry \<Rightarrow> string \<Rightarrow> MaskFunc" where
  "regIndex r k = (case r k of Some f \<Rightarrow> f | None \<Rightarrow> nilFunc)"

definition RegisterMaskFunc :: "string \<Rightarrow> MaskFunc \<Rightarrow> registry \<Rightarrow> registry" where
  "RegisterMaskFunc name fn r = r(name \<mapsto> fn)"

subsection \<open>The built-in strategies installed by \<open>init\<close>\<close>

definition partial_fn :: MaskFunc where
  "partial_fn s =
     (if len s > 4
      then bindE (substr s 0 2) (\<lambda>a.
           bindE (Repeat ''*'' (len s - 4)) (\<lambda>b.
           bindE (substr s (len s - 2) (len s)) (\<lambda>c. Inr (a @ b @ c))))
      else Repeat ''*'' (len s))"

definition full_fn :: MaskFunc where
  "full_fn s = Repeat ''*'' (len s)"

definition email_fn :: MaskFunc where
  "email_fn s =
     (let parts = Split s CHR ''@'' in
      if length parts = 2
      then bindE (substr (parts ! 0) 0 1) (\<lambda>a.
           bindE (Repeat ''*'' (len (parts ! 0) - 1)) (\<lambda>b. Inr (a @ b @ ''@'' @ parts ! 1)))
      else Repeat ''*'' (len s))"

definition phone_fn :: MaskFunc where
  "phone_fn s =
     (if len s > 4
      then bindE (Repeat ''*'' (len s - 4)) (\<lambda>a.
           bindE (substr s (len s - 4) (len s)) (\<lambda>b. Inr (a @ b)))
      else Repeat ''*'' (len s))"

definition creditcard_fn :: MaskFunc where
  "creditcard_fn s =
     (if len s > 4
      then bindE (Repeat ''*'' (len s - 4)) (\<lambda>a.
           bindE (substr s (len s - 4) (len s)) (\<lambda>b. Inr (a @ b)))
      else Repeat ''*'' (len s))"

definition dob_fn :: MaskFunc where
  "dob_fn s =
     (if len s = 10
      then bindE (substr s (len s - 2) (len s)) (\<lambda>a. Inr (''****-**-'' @ a))
      else Repeat ''*'' (len s))"

definition password_fn :: MaskFunc where
  "password_fn s = Repeat ''*'' (len s)"

definition token_fn :: MaskFunc where
  "token_fn s = Repeat ''*'' (len s)"

definition none_fn :: MaskFunc where
  "none_fn s = Inr s"

text \<open>
  \<open>init\<close> assigns into the registry statement by statement. A group line
  \<open>maskRegistry["PII"] = maskRegistry["partial"]\<close> reads the registry when it runs and
  stores the function it finds. (This is the \<open>init\<close> of the engine with overrides. The
  sources also keep a variant of the engine without overrides, whose \<open>init\<close> registers for a
  group a closure that looks the underlying name up at each call; it is not modelled.)
\<close>

definition init :: "registry \<Rightarrow> registry" where
  "init r0 =
     (let r = r0(''partial'' \<mapsto> partial_fn);
          r = r(''full'' \<mapsto> full_fn);
          r = r(''email'' \<mapsto> email_fn);
          r = r(''phone'' \<mapsto> phone_fn);
          r = r(''creditcard'' \<mapsto> creditcard_fn);
          r = r(''dob'' \<mapsto> dob_fn);
          r = r(''password'' \<mapsto> password_fn);
          r = r(''token'' \<mapsto> token_fn);
          r = r(''PII'' \<mapsto> regIndex r ''partial'');
          r = r(''PHI'' \<mapsto> regIndex r ''dob'');
          r = r(''PCI'' \<mapsto> regIndex r ''creditcard'');
          r = r(''CREDENTIALS'' \<mapsto> regIndex r ''full'');
          r = r(''FINANCIAL'' \<mapsto> regIndex r ''partial'');
          r = r(''GDPR'' \<mapsto> regIndex r ''full'');
          r = r(''none'' \<mapsto> none_fn)
      in r)"

text \<open>\<open>var maskRegistry = map[string]MaskFunc{}\<close>, after \<open>init\<close> has run.\<close>

definition maskRegistry :: registry where
  "maskRegistry = init Map.empty"

section \<open>Values and the store\<close>

text \<open>
  The engine walks a value through \<open>reflect\<close>. A value is what a variable of the Go
  program holds: a string, some other scalar (\<open>VInt\<close> stands for every kind the engine
  does not look into: numbers, booleans, interfaces, channels, functions), a pointer
  (\<open>None\<close> is \<open>nil\<close>), a struct or an array held in place, or a slice or map header
  (\<open>None\<close> is the nil slice or map). \<open>VNil\<close> is the nil interface value handed to an
  entry point, for which \<open>reflect.ValueOf\<close> yields the invalid \<open>Value\<close>.

  A struct field carries its name, the value of the \<open>mask\<close> key of its tag (empty when
  the key is absent) and whether the field is exported.

  Pointers, slices and maps refer to objects of a store, so that two references may share
  one object. A pointer refers to a \<open>Cell\<close>, a slice to its backing array \<open>Elems\<close>
  (the slice spans the whole backing array) and a map to its \<open>Entries\<close>, with string
  keys, in the order in which \<open>MapKeys\<close> returns them. References target whole objects:
  a pointer into the middle of another object is not modelled.
\<close>

type_synonym addr = nat

datatype val =
    VNil
  | VString string
  | VInt int
  | VPtr "addr option"
  | VStruct "field list"
  | VArray "val list"
  | VSlice "addr option"
  | VMap "addr option"
and field = StructField (fname: string) (ftag: string) (fexported: bool) (fvalue: val)

datatype obj = Cell val | Elems "val list" | Entries "(string \<times> val) list"

type_synonym heap = "obj list"

definition heapGet :: "heap \<Rightarrow> addr \<Rightarrow> obj option" where
  "heapGet h a = (if a < length h then Some (h ! a) else None)"

text \<open>
  \<open>type MaskOverrides map[string]string\<close>; \<open>None\<close> is the nil map that \<open>Mask\<close> passes.
  \<open>ovLookup\<close> is the test \<open>overrides != nil\<close> followed by the comma-ok lookup.
\<close>

type_synonym MaskOverrides = "(string \<rightharpoonup> string) option"

definition ovLookup :: "MaskOverrides \<Rightarrow> string \<Rightarrow> string option" where
  "ovLookup ov name = (case ov of None \<Rightarrow> None | Some m \<Rightarrow> m name)"

section \<open>The traversal \<open>maskValue\<close>\<close>

text \<open>
  A \<open>reflect.Value\<close> is a view of a value in memory together with a flag that says whether
  the view is addressable. The walk is modelled by a function from the viewed value and
  the store to the value as the walk leaves it and the new store; the caller puts the
  value back where the view came from. The flag follows \<open>reflect\<close>: the target of
  \<open>Elem\<close> on a pointer and an element of a slice are addressable, a struct field and an
  array element are as addressable as the struct or array, and what \<open>MapIndex\<close> and
  \<open>ValueOf\<close> return is not addressable. \<open>CanSet\<close> holds of an exported field of an
  addressable struct.

  The recursive call \<open>maskValue(value, overrides)\<close> is the parameter \<open>rec\<close> of the
  loops below.
\<close>

type_synonym walker = "bool \<Rightarrow> heap \<Rightarrow> val \<Rightarrow> error + val \<times> heap"

definition CanSet :: "bool \<Rightarrow> field \<Rightarrow> bool" where
  "CanSet ad f = (ad \<and> fexported f)"

definition SetString :: "field \<Rightarrow> string \<Rightarrow> field" where
  "SetString f s = StructField (fname f) (ftag f) (fexported f) (VString s)"

definition SetValue :: "field \<Rightarrow> val \<Rightarrow> field" where
  "SetValue f v = StructField (fname f) (ftag f) (fexported f) v"

text \<open>The loop over the segments of a tag (\<open>for _, part := range parts\<close>).\<close>

fun applyParts :: "registry \<Rightarrow> string list \<Rightarrow> string \<Rightarrow> error + string" where
  "applyParts reg [] s = Inr s"
| "applyParts reg (part # parts) s =
     (if HasPrefix part ''strategy:''
      then (case reg (TrimPrefix part ''strategy:'') of
              Some fn \<Rightarrow> bindE (fn s) (\<lambda>s'. applyParts reg parts s')
            | None \<Rightarrow> applyParts reg parts s)
      else applyParts reg parts s)"

text \<open>The tag-based default: the second half of the body of the loop over the fields.\<close>

definition tagDefault ::
  "walker \<Rightarrow> registry \<Rightarrow> bool \<Rightarrow> heap \<Rightarrow> field \<Rightarrow> error + field \<times> heap" where
  "tagDefault rec reg ad h f =
     (case fvalue f of
        VString s \<Rightarrow>
          if ftag f \<noteq> []
          then bindE (applyParts reg (Split (ftag f) CHR '';'') s)
                 (\<lambda>s'. Inr (SetString f s', h))
          else bindE (rec ad h (fvalue f)) (\<lambda>(v', h'). Inr (SetValue f v', h'))
      | _ \<Rightarrow> bindE (rec ad h (fvalue f)) (\<lambda>(v', h'). Inr (SetValue f v', h')))"

text \<open>The body of the loop over the fields of a struct.\<close>

definition maskField ::
  "walker \<Rightarrow> registry \<Rightarrow> MaskOverrides \<Rightarrow> bool \<Rightarrow> heap \<Rightarrow> field \<Rightarrow> error + field \<times> heap" where
  "maskField rec reg ov ad h f =
     (if \<not> CanSet ad f then Inr (f, h)
      else case ovLookup ov (fname f) of
             Some strategy \<Rightarrow>
               if strategy = ''none'' then Inr (f, h)
               else (case reg strategy of
                       Some fn \<Rightarrow>
                         (case fvalue f of
                            VString s \<Rightarrow> bindE (fn s) (\<lambda>s'. Inr (SetString f s', h))
                          | _ \<Rightarrow> tagDefault rec reg ad h f)
                     | None \<Rightarrow> tagDefault rec reg ad h f)
           | None \<Rightarrow> tagDefault rec reg ad h f)"

fun maskFields ::
  "walker \<Rightarrow> registry \<Rightarrow> MaskOverrides \<Rightarrow> bool \<Rightarrow> heap \<Rightarrow> field list
     \<Rightarrow> error + field list \<times> heap" where
  "maskFields rec reg ov ad h [] = Inr ([], h)"
| "maskFields rec reg ov ad h (f # fs) =
     bindE (maskField rec reg ov ad h f) (\<lambda>(f', h').
     bindE (maskFields rec reg ov ad h' fs) (\<lambda>(fs', h''). Inr (f' # fs', h'')))"

text \<open>The loop over the elements of a slice or an array.\<close>

fun maskElems :: "walker \<Rightarrow> bool \<Rightarrow> heap \<Rightarrow> val list \<Rightarrow> error + val list \<times> heap" where
  "maskElems rec ad h [] = Inr ([], h)"
| "maskElems rec ad h (v # vs) =
     bindE (rec ad h v) (\<lambda>(v', h').
     bindE (maskElems rec ad h' vs) (\<lambda>(vs', h''). Inr (v' # vs', h'')))"

text \<open>
  The loop over the keys of a map. \<open>MapIndex\<close> hands out a copy of the entry's value that
  is not addressable; nothing is stored back into the map.
\<close>

fun maskEntries :: "walker \<Rightarrow> heap \<Rightarrow> (string \<times> val) list \<Rightarrow> error + heap" where
  "maskEntries rec h [] = Inr h"
| "maskEntries rec h (kv # kvs) =
     bindE (rec False h (snd kv)) (\<lambda>(v', h'). maskEntries rec h' kvs)"

text \<open>The \<open>switch rv.Kind()\<close>.\<close>

definition maskKind ::
  "walker \<Rightarrow> registry \<Rightarrow> MaskOverrides \<Rightarrow> bool \<Rightarrow> heap \<Rightarrow> val \<Rightarrow> error + val \<times> heap" where
  "maskKind rec reg ov ad h v =
     (case v of
        VStruct fs \<Rightarrow>
          bindE (maskFields rec reg ov ad h fs) (\<lambda>(fs', h'). Inr (VStruct fs', h'))
      | VArray vs \<Rightarrow>
          bindE (maskElems rec ad h vs) (\<lambda>(vs', h'). Inr (VArray vs', h'))
      | VSlice None \<Rightarrow> Inr (v, h)
      | VSlice (Some a) \<Rightarrow>
          (case heapGet h a of
             Some (Elems vs) \<Rightarrow>
               bindE (maskElems rec True h vs) (\<lambda>(vs', h'). Inr (v, h'[a := Elems vs']))
           | _ \<Rightarrow> Inl BadHeap)
      | VMap None \<Rightarrow> Inr (v, h)
      | VMap (Some a) \<Rightarrow>
          (case heapGet h a of
             Some (Entries kvs) \<Rightarrow> bindE (maskEntries rec h kvs) (\<lambda>h'. Inr (v, h'))
           | _ \<Rightarrow> Inl BadHeap)
      | _ \<Rightarrow> Inr (v, h))"

text \<open>
  \<open>maskValue\<close>. The first argument bounds the depth of the recursion: Go recurses without
  bound on a cyclic value, and the model answers \<open>Diverged\<close> when the bound is used up.
  A non-nil pointer is followed once; the struct, array or scalar it points to is
  addressable and is written back to its cell.

  Go writes each masked string where it stands as soon as it is computed; the model
  writes an object back once the walk of its parts is over. The two agree on every walk
  that returns: the walk only changes strings, so a walk that came back to an object it
  is still walking would take the same path back to it again, without end.
\<close>

primrec maskValue ::
  "nat \<Rightarrow> registry \<Rightarrow> MaskOverrides \<Rightarrow> bool \<Rightarrow> heap \<Rightarrow> val \<Rightarrow> error + val \<times> heap" where
  "maskValue 0 reg ov ad h v = Inl Diverged"
| "maskValue (Suc n) reg ov ad h v =
     (if v = VNil then Inr (v, h)
      else case v of
             VPtr (Some a) \<Rightarrow>
               (case heapGet h a of
                  Some (Cell w) \<Rightarrow>
                    bindE (maskKind (maskValue n reg ov) reg ov True h w)
                      (\<lambda>(w', h'). Inr (v, h'[a := Cell w']))
                | _ \<Rightarrow> Inl BadHeap)
           | _ \<Rightarrow> maskKind (maskValue n reg ov) reg ov ad h v)"

section \<open>The public functions\<close>

text \<open>
  Each takes the recursion bound, the registry and the store, and returns the store as the
  call leaves it. \<open>reflect.ValueOf(v)\<close> is not addressable.
\<close>

definition Mask :: "nat \<Rightarrow> registry \<Rightarrow> heap \<Rightarrow> val \<Rightarrow> error + heap" where
  "Mask fuel reg h v = bindE (maskValue fuel reg None False h v) (\<lambda>(v', h'). Inr h')"

definition MaskWithOverrides ::
  "nat \<Rightarrow> registry \<Rightarrow> heap \<Rightarrow> val \<Rightarrow> MaskOverrides \<Rightarrow> error + heap" where
  "MaskWithOverrides fuel reg h v overrides =
     bindE (maskValue fuel reg overrides False h v) (\<lambda>(v', h'). Inr h')"

text \<open>
  \<open>MaskCopy\<close>: \<open>reflect.New\<close> allocates a cell, \<open>Set\<close> copies the struct into it field by
  field (references inside it are copied as references), the copy is masked and the
  pointer to it is returned.
\<close>

definition MaskCopy ::
  "nat \<Rightarrow> registry \<Rightarrow> heap \<Rightarrow> val \<Rightarrow> MaskOverrides \<Rightarrow> error + val \<times> heap" where
  "MaskCopy fuel reg h v overrides =
     (case v of
        VPtr (Some a) \<Rightarrow>
          (case heapGet h a of
             Some (Cell w) \<Rightarrow>
               (let copyVal = VPtr (Some (length h));
                    h1 = h @ [Cell w]
                in bindE (maskValue fuel reg overrides False h1 copyVal)
                     (\<lambda>(v', h'). Inr (copyVal, h')))
           | _ \<Rightarrow> Inl BadHeap)
      | _ \<Rightarrow> Inr (v, h))"

section \<open>The context-scoped variant\<close>

text \<open>
  The mask policy of the specification: an override set and the disable-masking flag.
\<close>

record policy =
  overrides :: MaskOverrides
  disableMasking :: bool

text \<open>
  Modelled from the spec: the engine under an explicit policy. No source file defines it;
  the specification (4.3, priority 1) lets a set disable flag turn the whole call into a
  no-op before the recursion begins, and otherwise masks with the policy's override set.
\<close>

definition maskWithPolicy :: "nat \<Rightarrow> registry \<Rightarrow> heap \<Rightarrow> val \<Rightarrow> policy \<Rightarrow> error + heap" where
  "maskWithPolicy fuel reg h v p =
     (if disableMasking p then Inr h else MaskWithOverrides fuel reg h v (overrides p))"

text \<open>
  The ambient carrier is a \<open>context.Context\<close>, a chain of \<open>WithValue\<close> bindings read by
  key; a later binding of a key hides an earlier one. The README binds the override set
  under \<open>"maskOverrides"\<close> and the flag under \<open>"disableMasking"\<close>.
\<close>

datatype ctxval = CtxOverrides MaskOverrides | CtxBool bool

type_synonym Context = "string \<rightharpoonup> ctxval"

definition Background :: Context where
  "Background = Map.empty"

definition WithValue :: "Context \<Rightarrow> string \<Rightarrow> ctxval \<Rightarrow> Context" where
  "WithValue ctx k x = ctx(k \<mapsto> x)"

definition carry :: "policy \<Rightarrow> Context" where
  "carry p =
     WithValue (WithValue Background ''maskOverrides'' (CtxOverrides (overrides p)))
       ''disableMasking'' (CtxBool (disableMasking p))"

text \<open>
  Modelled from the spec: how \<open>MaskWithContext\<close> reads the policy that the carrier
  holds. An absent or ill-typed binding reads as no overrides and masking enabled.
\<close>

definition policyOf :: "Context \<Rightarrow> policy" where
  "policyOf ctx =
     \<lparr> overrides = (case ctx ''maskOverrides'' of Some (CtxOverrides m) \<Rightarrow> m | _ \<Rightarrow> None),
       disableMasking = (case ctx ''disableMasking'' of Some (CtxBool b) \<Rightarrow> b | _ \<Rightarrow> False) \<rparr>"

text \<open>
  Modelled from the spec: \<open>MaskWithContext\<close>, which the README calls and no source file
  defines. It runs the engine under the policy read from the carrier, which the
  specification requires to give the result of passing that policy explicitly.
\<close>

definition MaskWithContext :: "nat \<Rightarrow> registry \<Rightarrow> heap \<Rightarrow> val \<Rightarrow> Context \<Rightarrow> error + heap" where
  "MaskWithContext fuel reg h v ctx = maskWithPolicy fuel reg h v (policyOf ctx)"

section \<open>Notions used to state the properties\<close>

text \<open>A strategy preserves the length of an input when it returns a string as long.\<close>

definition preservesLength :: "MaskFunc \<Rightarrow> string \<Rightarrow> bool" where
  "preservesLength f s = (case f s of Inl e \<Rightarrow> False | Inr t \<Rightarrow> length t = length s)"

text \<open>
  The registered transforms that the \<open>strategy:\<close> segments of a tag name, in segment
  order, and their composition from left to right.
\<close>

definition segmentStrategies :: "registry \<Rightarrow> string \<Rightarrow> MaskFunc list" where
  "segmentStrategies reg tag =
     List.map_filter
       (\<lambda>part. if HasPrefix part ''strategy:'' then reg (TrimPrefix part ''strategy:'') else None)
       (Split tag CHR '';'')"

fun composeLeft :: "MaskFunc list \<Rightarrow> string \<Rightarrow> error + string" where
  "composeLeft [] s = Inr s"
| "composeLeft (fn # fns) s = bindE (fn s) (composeLeft fns)"

text \<open>
  \<open>noField N v\<close>: no struct field named \<open>N\<close> lies in the value \<open>v\<close>, at any depth;
  \<open>noFieldHeap N h\<close>: nor in any object of the store.
\<close>

fun noField :: "string \<Rightarrow> val \<Rightarrow> bool"
  and noFieldF :: "string \<Rightarrow> field \<Rightarrow> bool" where
  "noField N (VStruct fs) = list_all (noFieldF N) fs"
| "noField N (VArray vs) = list_all (noField N) vs"
| "noField N VNil = True"
| "noField N (VString s) = True"
| "noField N (VInt i) = True"
| "noField N (VPtr p) = True"
| "noField N (VSlice p) = True"
| "noField N (VMap p) = True"
| "noFieldF N (StructField name tag ex v) = (name \<noteq> N \<and> noField N v)"

definition noFieldObj :: "string \<Rightarrow> obj \<Rightarrow> bool" where
  "noFieldObj N ob =
     (case ob of
        Cell v \<Rightarrow> noField N v
      | Elems vs \<Rightarrow> list_all (noField N) vs
      | Entries kvs \<Rightarrow> list_all (\<lambda>kv. noField N (snd kv)) kvs)"

definition noFieldHeap :: "string \<Rightarrow> heap \<Rightarrow> bool" where
  "noFieldHeap N h = list_all (noFieldObj N) h"

text \<open>
  Two walkers agree away from \<open>N\<close>: on a value and a store without a field named \<open>N\<close>
  they give the same result, and a result they return has no field named \<open>N\<close> either.
\<close>

definition agree :: "string \<Rightarrow> walker \<Rightarrow> walker \<Rightarrow> bool" where
  "agree N rec1 rec2 =
     (\<forall>ad h v. noField N v \<and> noFieldHeap N h \<longrightarrow>
        rec1 ad h v = rec2 ad h v
        \<and> (\<forall>v' h'. rec1 ad h v = Inr (v', h') \<longrightarrow> noField N v' \<and> noFieldHeap N h'))"

text \<open>
  A walker \<open>r2\<close> extends a walker \<open>r1\<close> when it gives the result of \<open>r1\<close> wherever
  \<open>r1\<close> does not run out of recursion depth.
\<close>

definition extends :: "walker \<Rightarrow> walker \<Rightarrow> bool" where
  "extends r1 r2 = (\<forall>ad h v. r1 ad h v \<noteq> Inl Diverged \<longrightarrow> r2 ad h v = r1 ad h v)"

text \<open>
  What an override entry \<open>N \<mapsto> s\<close> amounts to for the fields named \<open>N\<close>: under
  \<open>none\<close> the field is passed over, as a field that cannot be set is (\<open>Hide\<close>); under
  a registered name a string field is masked by that strategy, as a field tagged
  \<open>strategy:s\<close> is, and a field of another kind is recursed into, as any tagged field
  of that kind is (\<open>Retag\<close>); under any other name the entry does nothing
  (\<open>Keep\<close>). \<open>redeclare N d v\<close> declares every field named \<open>N\<close> of the value \<open>v\<close>
  anew in this way, at every depth, and leaves every other field as it is declared;
  \<open>redeclareHeap\<close> does so in every object of the store.
\<close>

datatype decl = Hide | Retag string | Keep

definition declOf :: "registry \<Rightarrow> string \<Rightarrow> decl" where
  "declOf reg s =
     (if s = ''none'' then Hide
      else case reg s of Some fn \<Rightarrow> Retag (''strategy:'' @ s) | None \<Rightarrow> Keep)"

fun redeclare :: "string \<Rightarrow> decl \<Rightarrow> val \<Rightarrow> val"
  and redeclareF :: "string \<Rightarrow> decl \<Rightarrow> field \<Rightarrow> field" where
  "redeclare N d (VStruct fs) = VStruct (map (redeclareF N d) fs)"
| "redeclare N d (VArray vs) = VArray (map (redeclare N d) vs)"
| "redeclare N d VNil = VNil"
| "redeclare N d (VString s) = VString s"
| "redeclare N d (VInt i) = VInt i"
| "redeclare N d (VPtr p) = VPtr p"
| "redeclare N d (VSlice p) = VSlice p"
| "redeclare N d (VMap p) = VMap p"
| "redeclareF N d (StructField name tag ex v) =
     (if name = N
      then (case d of
              Hide \<Rightarrow> StructField name tag False (redeclare N d v)
            | Retag t \<Rightarrow> StructField name t ex (redeclare N d v)
            | Keep \<Rightarrow> StructField name tag ex (redeclare N d v))
      else StructField name tag ex (redeclare N d v))"

definition redeclareObj :: "string \<Rightarrow> decl \<Rightarrow> obj \<Rightarrow> obj" where
  "redeclareObj N d ob =
     (case ob of
        Cell v \<Rightarrow> Cell (redeclare N d v)
      | Elems vs \<Rightarrow> Elems (map (redeclare N d) vs)
      | Entries kvs \<Rightarrow> Entries (map (\<lambda>kv. (fst kv, redeclare N d (snd kv))) kvs))"

definition redeclareHeap :: "string \<Rightarrow> decl \<Rightarrow> heap \<Rightarrow> heap" where
  "redeclareHeap N d h = map (redeclareObj N d) h"

text \<open>
  A walker \<open>r2\<close> follows a walker \<open>r1\<close> across the redeclaration when, started on the
  redeclared value and store, it fails as \<open>r1\<close> fails on the original ones or returns
  what \<open>r1\<close> returns, redeclared.
\<close>

definition redeclareRes :: "string \<Rightarrow> decl \<Rightarrow> error + val \<times> heap \<Rightarrow> error + val \<times> heap" where
  "redeclareRes N d r = map_sum id (map_prod (redeclare N d) (redeclareHeap N d)) r"

definition follows :: "string \<Rightarrow> decl \<Rightarrow> walker \<Rightarrow> walker \<Rightarrow> bool" where
  "follows N d r1 r2 =
     (\<forall>ad h v. r2 ad (redeclareHeap N d h) (redeclare N d v) = redeclareRes N d (r1 ad h v))"

section \<open>The built-in strategies\<close>

lemma concat_replicate_single: "concat (replicate n [c]) = replicate n c"
  by (induction n) simp_all

lemma Repeat_star: "0 \<le> n \<Longrightarrow> Repeat ''*'' n = Inr (replicate (nat n) CHR ''*'')"
  by (simp add: Repeat_def concat_replicate_single)

lemma Repeat_len: "Repeat ''*'' (len s) = Inr (replicate (length s) CHR ''*'')"
  by (simp add: Repeat_star len_def)

lemma Repeat_len_minus:
  "k \<le> length s \<Longrightarrow> Repeat ''*'' (len s - int k) = Inr (replicate (length s - k) CHR ''*'')"
  by (simp add: Repeat_star len_def nat_diff_distrib')

lemma substr_prefix: "k \<le> length s \<Longrightarrow> substr s 0 (int k) = Inr (take k s)"
  by (simp add: substr_def len_def)

lemma substr_suffix:
  "k \<le> length s \<Longrightarrow> substr s (len s - int k) (len s) = Inr (drop (length s - k) s)"
  by (simp add: substr_def len_def nat_diff_distrib')

lemma len_gt_4: "(4 < len s) = (4 < length s)"
  by (simp add: len_def)

lemma len_eq_10: "(len s = 10) = (length s = 10)"
  by (simp add: len_def)

lemma partial_fn_rule:
  "partial_fn s =
     Inr (if 4 < length s
          then take 2 s @ replicate (length s - 4) CHR ''*'' @ drop (length s - 2) s
          else replicate (length s) CHR ''*'')"
proof (cases "4 < length s")
  case True
  then have "4 \<le> length s" and "2 \<le> length s" by simp_all
  then show ?thesis
    using True Repeat_len_minus [of 4 s] substr_prefix [of 2 s] substr_suffix [of 2 s]
    by (simp add: partial_fn_def bindE_def len_gt_4)
next
  case False
  then show ?thesis
    by (simp add: partial_fn_def Repeat_len len_gt_4)
qed

lemma phone_fn_rule:
  "phone_fn s =
     Inr (if 4 < length s
          then replicate (length s - 4) CHR ''*'' @ drop (length s - 4) s
          else replicate (length s) CHR ''*'')"
proof (cases "4 < length s")
  case True
  then have "4 \<le> length s" by simp
  then show ?thesis
    using True Repeat_len_minus [of 4 s] substr_suffix [of 4 s]
    by (simp add: phone_fn_def bindE_def len_gt_4)
next
  case False
  then show ?thesis
    by (simp add: phone_fn_def Repeat_len len_gt_4)
qed

lemma creditcard_fn_rule: "creditcard_fn s = phone_fn s"
  by (simp add: creditcard_fn_def phone_fn_def)

lemma dob_fn_rule:
  "dob_fn s =
     Inr (if length s = 10 then ''****-**-'' @ drop (length s - 2) s
          else replicate (length s) CHR ''*'')"
proof (cases "length s = 10")
  case True
  then have "2 \<le> length s" by simp
  then have "substr s (len s - 2) (len s) = Inr (drop (length s - 2) s)"
    using substr_suffix [of 2 s] by simp
  with True show ?thesis
    by (simp add: dob_fn_def bindE_def len_eq_10)
next
  case False
  then show ?thesis
    by (simp add: dob_fn_def Repeat_len len_eq_10)
qed

lemma full_fn_rule: "full_fn s = Inr (replicate (length s) CHR ''*'')"
  by (simp add: full_fn_def Repeat_len)

lemma password_fn_rule: "password_fn s = Inr (replicate (length s) CHR ''*'')"
  by (simp add: password_fn_def Repeat_len)

lemma token_fn_rule: "token_fn s = Inr (replicate (length s) CHR ''*'')"
  by (simp add: token_fn_def Repeat_len)

lemma reg_partial: "regIndex maskRegistry ''partial'' = partial_fn"
  by (simp add: maskRegistry_def init_def regIndex_def)
lemma reg_full: "regIndex maskRegistry ''full'' = full_fn"
  by (simp add: maskRegistry_def init_def regIndex_def)
lemma reg_email: "regIndex maskRegistry ''email'' = email_fn"
  by (simp add: maskRegistry_def init_def regIndex_def)
lemma reg_phone: "regIndex maskRegistry ''phone'' = phone_fn"
  by (simp add: maskRegistry_def init_def regIndex_def)
lemma reg_creditcard: "regIndex maskRegistry ''creditcard'' = creditcard_fn"
  by (simp add: maskRegistry_def init_def regIndex_def)
lemma reg_dob: "regIndex maskRegistry ''dob'' = dob_fn"
  by (simp add: maskRegistry_def init_def regIndex_def)
lemma reg_password: "regIndex maskRegistry ''password'' = password_fn"
  by (simp add: maskRegistry_def init_def regIndex_def)
lemma reg_token: "regIndex maskRegistry ''token'' = token_fn"
  by (simp add: maskRegistry_def init_def regIndex_def)

lemma maskRegistry_lookup:
  "maskRegistry ''partial'' = Some partial_fn"
  "maskRegistry ''full'' = Some full_fn"
  "maskRegistry ''email'' = Some email_fn"
  "maskRegistry ''phone'' = Some phone_fn"
  "maskRegistry ''creditcard'' = Some creditcard_fn"
  "maskRegistry ''dob'' = Some dob_fn"
  "maskRegistry ''password'' = Some password_fn"
  "maskRegistry ''token'' = Some token_fn"
  "maskRegistry ''PII'' = Some partial_fn"
  "maskRegistry ''PHI'' = Some dob_fn"
  "maskRegistry ''PCI'' = Some creditcard_fn"
  "maskRegistry ''CREDENTIALS'' = Some full_fn"
  "maskRegistry ''FINANCIAL'' = Some partial_fn"
  "maskRegistry ''GDPR'' = Some full_fn"
  "maskRegistry ''none'' = Some none_fn"
  by (simp_all add: maskRegistry_def init_def regIndex_def)


lemma preservesLength_partial: "preservesLength partial_fn s"
  by (auto simp add: preservesLength_def partial_fn_rule)

lemma preservesLength_phone: "preservesLength phone_fn s"
  by (auto simp add: preservesLength_def phone_fn_rule)

lemma preservesLength_dob: "preservesLength dob_fn s"
  by (auto simp add: preservesLength_def dob_fn_rule)

lemma preservesLength_full: "preservesLength full_fn s"
  by (simp add: preservesLength_def full_fn_rule)

text \<open>
  Claim C8. On every input string, each of the seven strategies \<open>partial\<close>, \<open>phone\<close>,
  \<open>creditcard\<close>, \<open>full\<close>, \<open>dob\<close>, \<open>password\<close> and \<open>token\<close> returns a string of
  the length of the input.
\<close>

theorem builtin_length:
  "preservesLength (regIndex maskRegistry ''partial'') s
   \<and> preservesLength (regIndex maskRegistry ''phone'') s
   \<and> preservesLength (regIndex maskRegistry ''creditcard'') s
   \<and> preservesLength (regIndex maskRegistry ''full'') s
   \<and> preservesLength (regIndex maskRegistry ''dob'') s
   \<and> preservesLength (regIndex maskRegistry ''password'') s
   \<and> preservesLength (regIndex maskRegistry ''token'') s"
proof -
  have "creditcard_fn = phone_fn" "password_fn = full_fn" "token_fn = full_fn"
    by (simp_all add: fun_eq_iff creditcard_fn_def phone_fn_def password_fn_def token_fn_def
        full_fn_def)
  then show ?thesis
    by (simp add: reg_full reg_password reg_token reg_partial reg_phone reg_creditcard reg_dob
        preservesLength_partial preservesLength_phone preservesLength_dob preservesLength_full)
qed

text \<open>
  Claim C4 says that every built-in strategy returns a string on every input. The
  \<open>email\<close> strategy does not: on an input with exactly one \<open>@\<close> and nothing before
  it, the two parts are the empty string and the domain, and \<open>parts[0][:1]\<close> slices
  the empty string out of range, which panics.
\<close>

theorem email_panics:
  "regIndex maskRegistry ''email'' ''@example.com'' = Inl Panic"
  by (simp add: reg_email email_fn_def Split_def substr_def bindE_def len_def)

text \<open>
  Claim C9. Group aliases are bound by value when \<open>init\<close> installs them. In the
  registry that \<open>init\<close> builds the underlying names \<open>partial\<close>, \<open>dob\<close>,
  \<open>creditcard\<close> and \<open>full\<close> are bound to their built-in transforms, and after any of
  them is registered again with any transform \<open>g\<close>, each alias (\<open>PII\<close> and
  \<open>FINANCIAL\<close> for \<open>partial\<close>, \<open>PHI\<close> for \<open>dob\<close>, \<open>PCI\<close> for
  \<open>creditcard\<close>, \<open>CREDENTIALS\<close> and \<open>GDPR\<close> for \<open>full\<close>) is still bound to the
  transform the underlying name had when \<open>init\<close> installed the alias, while the
  underlying name itself is now bound to \<open>g\<close>.
\<close>

theorem alias_by_value:
  "maskRegistry ''partial'' = Some partial_fn
   \<and> maskRegistry ''dob'' = Some dob_fn
   \<and> maskRegistry ''creditcard'' = Some creditcard_fn
   \<and> maskRegistry ''full'' = Some full_fn
   \<and> RegisterMaskFunc ''partial'' g maskRegistry ''PII'' = Some partial_fn
   \<and> RegisterMaskFunc ''dob'' g maskRegistry ''PHI'' = Some dob_fn
   \<and> RegisterMaskFunc ''creditcard'' g maskRegistry ''PCI'' = Some creditcard_fn
   \<and> RegisterMaskFunc ''full'' g maskRegistry ''CREDENTIALS'' = Some full_fn
   \<and> RegisterMaskFunc ''partial'' g maskRegistry ''FINANCIAL'' = Some partial_fn
   \<and> RegisterMaskFunc ''full'' g maskRegistry ''GDPR'' = Some full_fn
   \<and> RegisterMaskFunc ''partial'' g maskRegistry ''partial'' = Some g
   \<and> RegisterMaskFunc ''dob'' g maskRegistry ''dob'' = Some g
   \<and> RegisterMaskFunc ''creditcard'' g maskRegistry ''creditcard'' = Some g
   \<and> RegisterMaskFunc ''full'' g maskRegistry ''full'' = Some g
   \<and> regIndex (RegisterMaskFunc ''partial'' g maskRegistry) ''PII'' = partial_fn
   \<and> regIndex (RegisterMaskFunc ''dob'' g maskRegistry) ''PHI'' = dob_fn
   \<and> regIndex (RegisterMaskFunc ''creditcard'' g maskRegistry) ''PCI'' = creditcard_fn
   \<and> regIndex (RegisterMaskFunc ''full'' g maskRegistry) ''CREDENTIALS'' = full_fn
   \<and> regIndex (RegisterMaskFunc ''partial'' g maskRegistry) ''FINANCIAL'' = partial_fn
   \<and> regIndex (RegisterMaskFunc ''full'' g maskRegistry) ''GDPR'' = full_fn"
  by (simp add: RegisterMaskFunc_def regIndex_def maskRegistry_lookup)

section \<open>Tags\<close>

lemma applyParts_composeLeft:
  "applyParts reg parts s =
     composeLeft
       (List.map_filter
          (\<lambda>part. if HasPrefix part ''strategy:'' then reg (TrimPrefix part ''strategy:'')
                   else None) parts) s"
proof (induction parts arbitrary: s)
  case Nil
  show ?case by (simp add: map_filter_simps)
next
  case (Cons part parts)
  show ?case
  proof (cases "HasPrefix part ''strategy:''")
    case False
    then show ?thesis using Cons.IH by (simp add: map_filter_simps)
  next
    case True
    show ?thesis
    proof (cases "reg (TrimPrefix part ''strategy:'')")
      case None
      with True show ?thesis using Cons.IH by (simp add: map_filter_simps)
    next
      case (Some fn)
      have "bindE (fn s) (\<lambda>s'. applyParts reg parts s') =
            bindE (fn s) (composeLeft (List.map_filter
          (\<lambda>part. if HasPrefix part ''strategy:'' then reg (TrimPrefix part ''strategy:'')
                   else None) parts))"
        by (cases "fn s") (simp_all add: bindE_def Cons.IH)
      with True Some show ?thesis by (simp add: map_filter_simps)
    qed
  qed
qed

text \<open>
  Claim C10. When the tag of a settable string field holds several semicolon-separated
  \<open>strategy:\<close> segments (and no override entry decides the field), masking applies
  every segment that names a registered strategy, in segment order, each to the result of
  the one before: the new field value is the left-to-right composition of the named
  registered transforms applied to the original string; segments that name no registered
  strategy, or that are not \<open>strategy:\<close> segments, are skipped.
\<close>

theorem tag_segments_compose:
  assumes "CanSet ad f" and "ovLookup ov (fname f) = None"
    and "fvalue f = VString s" and "ftag f \<noteq> []"
  shows "maskField rec reg ov ad h f =
           bindE (composeLeft (segmentStrategies reg (ftag f)) s)
             (\<lambda>s'. Inr (SetString f s', h))"
  using assms
  by (simp add: maskField_def tagDefault_def segmentStrategies_def applyParts_composeLeft)

theorem tag_segments_compose_witness:
  "CanSet True (StructField ''Card'' ''group:PCI;strategy:creditcard;strategy:partial'' True
       (VString ''4111111111111111''))
   \<and> ovLookup None ''Card'' = None
   \<and> maskField (maskValue 0 maskRegistry None) maskRegistry None True []
       (StructField ''Card'' ''group:PCI;strategy:creditcard;strategy:partial'' True
          (VString ''4111111111111111''))
     = Inr (StructField ''Card'' ''group:PCI;strategy:creditcard;strategy:partial'' True
          (VString ''**************11''), [])
   \<and> bindE (creditcard_fn ''4111111111111111'') partial_fn = Inr ''**************11''
   \<and> Mask 2 maskRegistry
       [Cell (VStruct [StructField ''Card'' ''group:PCI;strategy:creditcard;strategy:partial''
          True (VString ''4111111111111111'')])] (VPtr (Some 0))
     = Inr [Cell (VStruct [StructField ''Card'' ''group:PCI;strategy:creditcard;strategy:partial''
          True (VString ''**************11'')])]"
  using tag_segments_compose [of True
      "StructField ''Card'' ''group:PCI;strategy:creditcard;strategy:partial'' True
         (VString ''4111111111111111'')" None "''4111111111111111''"
      "maskValue 0 maskRegistry None" maskRegistry "[]"]
  by code_simp

section \<open>Overrides, maps, copies and the disable flag\<close>

text \<open>
  Claim C1 says that a field whose override entry names an unregistered strategy (other
  than \<open>none\<close>) is left unmodified and that its tag is not consulted. It fails: with
  the override \<open>Name \<mapsto> bogus\<close>, where \<open>bogus\<close> is not registered, the field
  \<open>Name\<close> tagged \<open>strategy:full\<close> is masked by its tag.
\<close>

theorem unregistered_override_counterexample:
  "ovLookup (Some [''Name'' \<mapsto> ''bogus'']) ''Name'' = Some ''bogus''
   \<and> maskRegistry ''bogus'' = None
   \<and> ''bogus'' \<noteq> ''none''
   \<and> MaskWithOverrides 2 maskRegistry
        [Cell (VStruct [StructField ''Name'' ''strategy:full'' True (VString ''abcd'')])]
        (VPtr (Some 0)) (Some [''Name'' \<mapsto> ''bogus''])
      = Inr [Cell (VStruct [StructField ''Name'' ''strategy:full'' True (VString ''****'')])]"
  by code_simp

text \<open>
  Claim C1, amended. If the override set maps the name of a settable field to a strategy
  name that is not registered (and is not \<open>none\<close>), the entry is ignored for that
  field and processing falls through to the tag-based default: the field is handled
  exactly as it would be were the entry absent, so a string field with a tag is masked by
  the registered strategies of its tag and any other field is recursed into.
\<close>

theorem unregistered_override_falls_to_tag:
  assumes "CanSet ad f" and "m (fname f) = Some strategy"
    and "strategy \<noteq> ''none''" and "reg strategy = None"
  shows "maskField rec reg (Some m) ad h f = tagDefault rec reg ad h f
         \<and> maskField rec reg (Some m) ad h f
             = maskField rec reg (Some (m(fname f := None))) ad h f"
  using assms by (simp add: maskField_def ovLookup_def)

theorem unregistered_override_falls_to_tag_witness:
  "CanSet True (StructField ''Name'' ''strategy:full'' True (VString ''abcd''))
   \<and> [''Name'' \<mapsto> ''bogus''] ''Name'' = Some ''bogus''
   \<and> ''bogus'' \<noteq> ''none''
   \<and> maskRegistry ''bogus'' = None
   \<and> maskField (maskValue 0 maskRegistry (Some [''Name'' \<mapsto> ''bogus''])) maskRegistry
        (Some [''Name'' \<mapsto> ''bogus'']) True []
        (StructField ''Name'' ''strategy:full'' True (VString ''abcd''))
      = Inr (StructField ''Name'' ''strategy:full'' True (VString ''****''), [])"
proof -
  let ?f = "StructField ''Name'' ''strategy:full'' True (VString ''abcd'')"
  let ?m = "[''Name'' \<mapsto> ''bogus'']"
  let ?rec = "maskValue 0 maskRegistry (Some ?m)"
  have h1: "CanSet True ?f" by (simp add: CanSet_def)
  have h2: "?m (fname ?f) = Some ''bogus''" by simp
  have h3: "''bogus'' \<noteq> ''none''" by simp
  have h4: "maskRegistry ''bogus'' = None" by (simp add: maskRegistry_def init_def Let_def)
  have ev: "tagDefault ?rec maskRegistry True [] ?f
              = Inr (StructField ''Name'' ''strategy:full'' True (VString ''****''), [])"
    by code_simp
  from unregistered_override_falls_to_tag [where ad = True and f = ?f and m = ?m
      and strategy = "''bogus''" and reg = maskRegistry and rec = ?rec and h = "[]"]
    h1 h2 h3 h4 ev
  show ?thesis by simp
qed

text \<open>
  Claim C3 says that a tagged string field of a struct stored as a map value is masked
  as it would be were the struct held directly. The walk does visit every map value, but
  what \<open>MapIndex\<close> returns is not addressable, so no field of a struct-typed map value
  can be set and all of them are skipped: the store is left as it was, whereas the same
  struct held as a field is masked.
\<close>

theorem map_value_struct_not_masked:
  "Mask 3 maskRegistry
     [Cell (VStruct [StructField ''Accounts'' [] True (VMap (Some 1))]),
      Entries [(''k'', VStruct [StructField ''Secret'' ''strategy:full'' True (VString ''abcd'')])]]
     (VPtr (Some 0))
   = Inr [Cell (VStruct [StructField ''Accounts'' [] True (VMap (Some 1))]),
      Entries [(''k'', VStruct [StructField ''Secret'' ''strategy:full'' True (VString ''abcd'')])]]
   \<and> Mask 3 maskRegistry
     [Cell (VStruct [StructField ''Account'' [] True
        (VStruct [StructField ''Secret'' ''strategy:full'' True (VString ''abcd'')])])]
     (VPtr (Some 0))
   = Inr [Cell (VStruct [StructField ''Account'' [] True
        (VStruct [StructField ''Secret'' ''strategy:full'' True (VString ''****'')])])]"
  by code_simp

text \<open>
  Claim C6 says that \<open>MaskCopy\<close> leaves the original untouched, data reached through
  its reference-typed fields included. The copy is shallow: the slice field of the copy
  shares its backing array with the original, the walk masks the elements in place, and
  the original's \<open>Cards[0].Number\<close> is masked after the call, although the original
  struct's own string field \<open>Name\<close> is not.
\<close>

theorem MaskCopy_mutates_shared:
  "MaskCopy 3 maskRegistry
     [Cell (VStruct [StructField ''Name'' ''strategy:full'' True (VString ''abcd''),
                     StructField ''Cards'' [] True (VSlice (Some 1))]),
      Elems [VStruct [StructField ''Number'' ''strategy:full'' True (VString ''4111'')]]]
     (VPtr (Some 0)) None
   = Inr (VPtr (Some 2),
     [Cell (VStruct [StructField ''Name'' ''strategy:full'' True (VString ''abcd''),
                     StructField ''Cards'' [] True (VSlice (Some 1))]),
      Elems [VStruct [StructField ''Number'' ''strategy:full'' True (VString ''****'')]],
      Cell (VStruct [StructField ''Name'' ''strategy:full'' True (VString ''****''),
                     StructField ''Cards'' [] True (VSlice (Some 1))])])"
  by code_simp

text \<open>
  Claim C5. When the disable-masking flag of the active policy is set, the whole call is
  a no-op whatever the override set holds and whatever the value: the store is returned
  unchanged; and carrying a policy in the context gives the same result as passing that
  policy explicitly.
\<close>

theorem disable_flag_noop:
  "MaskWithContext fuel reg h v (carry p) = maskWithPolicy fuel reg h v p
   \<and> (disableMasking p \<longrightarrow>
        maskWithPolicy fuel reg h v p = Inr h \<and> MaskWithContext fuel reg h v (carry p) = Inr h)"
proof -
  have "policyOf (carry p) = p"
    by (simp add: policyOf_def carry_def WithValue_def Background_def)
  then show ?thesis
    by (simp add: MaskWithContext_def maskWithPolicy_def)
qed

theorem disable_flag_noop_witness:
  "disableMasking \<lparr>overrides = Some [''Name'' \<mapsto> ''full''], disableMasking = True\<rparr>
   \<and> MaskWithContext 2 maskRegistry
        [Cell (VStruct [StructField ''Name'' ''strategy:partial'' True (VString ''John Doe'')])]
        (VPtr (Some 0))
        (carry \<lparr>overrides = Some [''Name'' \<mapsto> ''full''], disableMasking = True\<rparr>)
      = Inr [Cell (VStruct [StructField ''Name'' ''strategy:partial'' True (VString ''John Doe'')])]
   \<and> MaskWithOverrides 2 maskRegistry
        [Cell (VStruct [StructField ''Name'' ''strategy:partial'' True (VString ''John Doe'')])]
        (VPtr (Some 0)) (Some [''Name'' \<mapsto> ''full''])
      = Inr [Cell (VStruct [StructField ''Name'' ''strategy:partial'' True (VString ''********'')])]"
  using disable_flag_noop [of 2 maskRegistry
      "[Cell (VStruct [StructField ''Name'' ''strategy:partial'' True (VString ''John Doe'')])]"
      "VPtr (Some 0)" "\<lparr>overrides = Some [''Name'' \<mapsto> ''full''], disableMasking = True\<rparr>"]
  by code_simp

section \<open>The reach of an override entry\<close>

lemma agreeD1:
  "agree N r1 r2 \<Longrightarrow> noField N v \<Longrightarrow> noFieldHeap N h \<Longrightarrow> r1 ad h v = r2 ad h v"
  unfolding agree_def by blast

lemma agreeD2:
  "agree N r1 r2 \<Longrightarrow> noField N v \<Longrightarrow> noFieldHeap N h \<Longrightarrow> r1 ad h v = Inr (v', h')
     \<Longrightarrow> noField N v' \<and> noFieldHeap N h'"
  unfolding agree_def by blast

lemma noFieldHeap_update:
  "noFieldHeap N h \<Longrightarrow> noFieldObj N ob \<Longrightarrow> noFieldHeap N (h[a := ob])"
proof -
  assume a: "noFieldHeap N h" "noFieldObj N ob"
  have "set (h[a := ob]) \<subseteq> insert ob (set h)" by (rule set_update_subset_insert)
  with a show ?thesis
    unfolding noFieldHeap_def list_all_iff by blast
qed

lemma noFieldHeap_get:
  "noFieldHeap N h \<Longrightarrow> heapGet h a = Some ob \<Longrightarrow> noFieldObj N ob"
proof -
  assume a: "noFieldHeap N h" "heapGet h a = Some ob"
  then have "a < length h" "ob = h ! a"
    by (simp_all add: heapGet_def split: if_splits)
  then have "ob \<in> set h" by simp
  with a show ?thesis
    unfolding noFieldHeap_def list_all_iff by blast
qed


lemma noFieldF_iff: "noFieldF N f = (fname f \<noteq> N \<and> noField N (fvalue f))"
  by (cases f) simp

lemma bindE_Inr_iff:
  "(bindE x g = Inr y) = (\<exists>a. x = Inr a \<and> g a = Inr y)"
  by (cases x) (simp_all add: bindE_def)

lemma tagDefault_cases:
  "(\<exists>s. fvalue f = VString s \<and> ftag f \<noteq> []
        \<and> tagDefault r reg ad h f
            = bindE (applyParts reg (Split (ftag f) CHR '';'') s) (\<lambda>s'. Inr (SetString f s', h)))
   \<or> tagDefault r reg ad h f = bindE (r ad h (fvalue f)) (\<lambda>(v', h'). Inr (SetValue f v', h'))"
  by (cases "fvalue f") (simp_all add: tagDefault_def)


lemma noFieldF_SetString: "noFieldF N (SetString f s) = (fname f \<noteq> N)"
  by (simp add: SetString_def)

lemma noFieldF_SetValue: "noFieldF N (SetValue f v) = (fname f \<noteq> N \<and> noField N v)"
  by (simp add: SetValue_def)

lemma tagDefault_agree_eq:
  assumes ag: "agree N r1 r2" and f: "noFieldF N f" and h: "noFieldHeap N h"
  shows "tagDefault r1 reg ad h f = tagDefault r2 reg ad h f"
proof -
  from f have nv: "noField N (fvalue f)" by (simp add: noFieldF_iff)
  have eq: "r1 ad h (fvalue f) = r2 ad h (fvalue f)" by (rule agreeD1 [OF ag nv h])
  show ?thesis unfolding tagDefault_def eq by (rule refl)
qed

lemma tagDefault_agree_res:
  assumes ag: "agree N r1 r2" and f: "noFieldF N f" and h: "noFieldHeap N h"
    and res: "tagDefault r1 reg ad h f = Inr (f', h')"
  shows "noFieldF N f' \<and> noFieldHeap N h'"
proof -
  from f have nm: "fname f \<noteq> N" and nv: "noField N (fvalue f)"
    by (simp_all add: noFieldF_iff)
  from tagDefault_cases [of f r1 reg ad h] show ?thesis
  proof (elim disjE exE conjE)
    fix s
    assume "tagDefault r1 reg ad h f
              = bindE (applyParts reg (Split (ftag f) CHR '';'') s) (\<lambda>s'. Inr (SetString f s', h))"
    with res obtain s' where "f' = SetString f s'" "h' = h"
      by (auto simp add: bindE_Inr_iff)
    with nm h show ?thesis by (simp add: noFieldF_SetString)
  next
    assume "tagDefault r1 reg ad h f
              = bindE (r1 ad h (fvalue f)) (\<lambda>(v', h'). Inr (SetValue f v', h'))"
    with res obtain v' where r: "r1 ad h (fvalue f) = Inr (v', h')" and f': "f' = SetValue f v'"
      by (auto simp add: bindE_Inr_iff)
    from agreeD2 [OF ag nv h r] nm f' show ?thesis by (simp add: noFieldF_SetValue)
  qed
qed

lemma maskField_cases:
  "maskField r reg ov ad h f = Inr (f, h)
   \<or> (\<exists>(fn :: MaskFunc) s. maskField r reg ov ad h f = bindE (fn s) (\<lambda>s'. Inr (SetString f s', h)))
   \<or> maskField r reg ov ad h f = tagDefault r reg ad h f"
proof (cases "CanSet ad f")
  case False
  then show ?thesis by (simp add: maskField_def)
next
  case True
  show ?thesis
  proof (cases "ovLookup ov (fname f)")
    case None
    with True show ?thesis by (simp add: maskField_def)
  next
    case (Some strategy)
    show ?thesis
    proof (cases "strategy = ''none''")
      case True
      with Some \<open>CanSet ad f\<close> show ?thesis by (simp add: maskField_def)
    next
      case False
      show ?thesis
      proof (cases "reg strategy")
        case None
        with False Some True show ?thesis by (simp add: maskField_def)
      next
        case (Some fn)
        with False \<open>ovLookup ov (fname f) = Some strategy\<close> True show ?thesis
          by (cases "fvalue f") (simp_all add: maskField_def, blast)
      qed
    qed
  qed
qed


lemma maskField_agree_eq:
  assumes ag: "agree N r1 r2" and f: "noFieldF N f" and h: "noFieldHeap N h"
    and ov: "\<And>name. name \<noteq> N \<Longrightarrow> ovLookup ov1 name = ovLookup ov2 name"
  shows "maskField r1 reg ov1 ad h f = maskField r2 reg ov2 ad h f"
proof -
  from f have nm: "fname f \<noteq> N" by (simp add: noFieldF_iff)
  have td: "tagDefault r1 reg ad h f = tagDefault r2 reg ad h f"
    by (rule tagDefault_agree_eq [OF ag f h])
  show ?thesis unfolding maskField_def ov [OF nm] td by (rule refl)
qed

lemma maskField_agree_res:
  assumes ag: "agree N r1 r2" and f: "noFieldF N f" and h: "noFieldHeap N h"
    and res: "maskField r1 reg ov ad h f = Inr (f', h')"
  shows "noFieldF N f' \<and> noFieldHeap N h'"
proof -
  from f have nm: "fname f \<noteq> N" by (simp add: noFieldF_iff)
  from maskField_cases [of r1 reg ov ad h f] show ?thesis
  proof (elim disjE exE)
    assume "maskField r1 reg ov ad h f = Inr (f, h)"
    with res f h show ?thesis by simp
  next
    fix fn :: MaskFunc and s :: string
    assume "maskField r1 reg ov ad h f = bindE (fn s) (\<lambda>s'. Inr (SetString f s', h))"
    with res obtain s' where "f' = SetString f s'" "h' = h"
      by (auto simp add: bindE_Inr_iff)
    with nm h show ?thesis by (simp add: noFieldF_SetString)
  next
    assume "maskField r1 reg ov ad h f = tagDefault r1 reg ad h f"
    with res have "tagDefault r1 reg ad h f = Inr (f', h')" by simp
    then show ?thesis by (rule tagDefault_agree_res [OF ag f h])
  qed
qed

lemma maskFields_agree:
  assumes ag: "agree N r1 r2"
    and ov: "\<And>name. name \<noteq> N \<Longrightarrow> ovLookup ov1 name = ovLookup ov2 name"
  shows "list_all (noFieldF N) fs \<Longrightarrow> noFieldHeap N h \<Longrightarrow>
           maskFields r1 reg ov1 ad h fs = maskFields r2 reg ov2 ad h fs
           \<and> (\<forall>fs' h'. maskFields r1 reg ov1 ad h fs = Inr (fs', h')
                 \<longrightarrow> list_all (noFieldF N) fs' \<and> noFieldHeap N h')"
proof (induction fs arbitrary: h)
  case Nil
  then show ?case by simp
next
  case (Cons f fs)
  then have f: "noFieldF N f" and fs: "list_all (noFieldF N) fs" by simp_all
  have eq: "maskField r1 reg ov1 ad h f = maskField r2 reg ov2 ad h f"
    by (rule maskField_agree_eq [OF ag f Cons.prems(2) ov])
  show ?case
  proof (cases "maskField r1 reg ov1 ad h f")
    case (Inl e)
    with eq have "maskField r2 reg ov2 ad h f = Inl e" by simp
    with Inl show ?thesis by (simp add: bindE_def)
  next
    case (Inr p)
    obtain f1 h1 where p: "p = (f1, h1)" by (cases p)
    from maskField_agree_res [OF ag f Cons.prems(2)] Inr p
    have ok: "noFieldF N f1" "noFieldHeap N h1" by simp_all
    from Cons.IH [OF fs ok(2)]
    have ih1: "maskFields r1 reg ov1 ad h1 fs = maskFields r2 reg ov2 ad h1 fs"
      and ih2: "\<And>fs' h'. maskFields r1 reg ov1 ad h1 fs = Inr (fs', h')
                  \<Longrightarrow> list_all (noFieldF N) fs' \<and> noFieldHeap N h'"
      by blast+
    have a: "maskFields r1 reg ov1 ad h (f # fs)
               = bindE (maskFields r1 reg ov1 ad h1 fs) (\<lambda>(fs', h''). Inr (f1 # fs', h''))"
      using Inr p by (simp add: bindE_def)
    from eq Inr p have "maskField r2 reg ov2 ad h f = Inr (f1, h1)" by simp
    then have b: "maskFields r2 reg ov2 ad h (f # fs)
               = bindE (maskFields r2 reg ov2 ad h1 fs) (\<lambda>(fs', h''). Inr (f1 # fs', h''))"
      by (simp add: bindE_def)
    show ?thesis
    proof (intro conjI allI impI)
      show "maskFields r1 reg ov1 ad h (f # fs) = maskFields r2 reg ov2 ad h (f # fs)"
        unfolding a b ih1 by (rule refl)
    next
      fix fs' h'
      assume "maskFields r1 reg ov1 ad h (f # fs) = Inr (fs', h')"
      with a obtain fs1 where r: "maskFields r1 reg ov1 ad h1 fs = Inr (fs1, h')"
        and fs': "fs' = f1 # fs1"
        by (auto simp add: bindE_Inr_iff)
      from ih2 [OF r] have "list_all (noFieldF N) fs1" "noFieldHeap N h'" by simp_all
      with fs' ok(1) show "list_all (noFieldF N) fs'" "noFieldHeap N h'" by simp_all
    qed
  qed
qed


lemma maskElems_agree:
  assumes ag: "agree N r1 r2"
  shows "list_all (noField N) vs \<Longrightarrow> noFieldHeap N h \<Longrightarrow>
           maskElems r1 ad h vs = maskElems r2 ad h vs
           \<and> (\<forall>vs' h'. maskElems r1 ad h vs = Inr (vs', h')
                 \<longrightarrow> list_all (noField N) vs' \<and> noFieldHeap N h')"
proof (induction vs arbitrary: h)
  case Nil
  then show ?case by simp
next
  case (Cons v vs)
  then have v: "noField N v" and vs: "list_all (noField N) vs" by simp_all
  have eq: "r1 ad h v = r2 ad h v"
    by (rule agreeD1 [OF ag v Cons.prems(2)])
  show ?case
  proof (cases "r1 ad h v")
    case (Inl e)
    with eq have "r2 ad h v = Inl e" by simp
    with Inl show ?thesis by (simp add: bindE_def)
  next
    case (Inr p)
    obtain v1 h1 where p: "p = (v1, h1)" by (cases p)
    from Inr p have r: "r1 ad h v = Inr (v1, h1)" by simp
    from agreeD2 [OF ag v Cons.prems(2) r]
    have ok: "noField N v1" "noFieldHeap N h1" by simp_all
    from Cons.IH [OF vs ok(2)]
    have ih1: "maskElems r1 ad h1 vs = maskElems r2 ad h1 vs"
      and ih2: "\<And>vs' h'. maskElems r1 ad h1 vs = Inr (vs', h')
                  \<Longrightarrow> list_all (noField N) vs' \<and> noFieldHeap N h'"
      by blast+
    have a: "maskElems r1 ad h (v # vs)
               = bindE (maskElems r1 ad h1 vs) (\<lambda>(vs', h''). Inr (v1 # vs', h''))"
      using r by (simp add: bindE_def)
    from eq r have "r2 ad h v = Inr (v1, h1)" by simp
    then have b: "maskElems r2 ad h (v # vs)
               = bindE (maskElems r2 ad h1 vs) (\<lambda>(vs', h''). Inr (v1 # vs', h''))"
      by (simp add: bindE_def)
    show ?thesis
    proof (intro conjI allI impI)
      show "maskElems r1 ad h (v # vs) = maskElems r2 ad h (v # vs)"
        unfolding a b ih1 by (rule refl)
    next
      fix vs' h'
      assume "maskElems r1 ad h (v # vs) = Inr (vs', h')"
      with a obtain vs1 where r1: "maskElems r1 ad h1 vs = Inr (vs1, h')"
        and vs': "vs' = v1 # vs1"
        by (auto simp add: bindE_Inr_iff)
      from ih2 [OF r1] have "list_all (noField N) vs1" "noFieldHeap N h'" by simp_all
      with vs' ok(1) show "list_all (noField N) vs'" "noFieldHeap N h'" by simp_all
    qed
  qed
qed

lemma maskEntries_agree:
  assumes ag: "agree N r1 r2"
  shows "list_all (\<lambda>kv. noField N (snd kv)) kvs \<Longrightarrow> noFieldHeap N h \<Longrightarrow>
           maskEntries r1 h kvs = maskEntries r2 h kvs
           \<and> (\<forall>h'. maskEntries r1 h kvs = Inr h' \<longrightarrow> noFieldHeap N h')"
proof (induction kvs arbitrary: h)
  case Nil
  then show ?case by simp
next
  case (Cons kv kvs)
  then have v: "noField N (snd kv)" and vs: "list_all (\<lambda>kv. noField N (snd kv)) kvs"
    by simp_all
  have eq: "r1 False h (snd kv) = r2 False h (snd kv)"
    by (rule agreeD1 [OF ag v Cons.prems(2)])
  show ?case
  proof (cases "r1 False h (snd kv)")
    case (Inl e)
    with eq have "r2 False h (snd kv) = Inl e" by simp
    with Inl show ?thesis by (simp add: bindE_def)
  next
    case (Inr p)
    obtain v1 h1 where p: "p = (v1, h1)" by (cases p)
    from Inr p have r: "r1 False h (snd kv) = Inr (v1, h1)" by simp
    from agreeD2 [OF ag v Cons.prems(2) r] have ok: "noFieldHeap N h1" by simp
    from eq r have r2: "r2 False h (snd kv) = Inr (v1, h1)" by simp
    have a: "maskEntries r1 h (kv # kvs) = maskEntries r1 h1 kvs"
      using r by (simp add: bindE_def)
    have b: "maskEntries r2 h (kv # kvs) = maskEntries r2 h1 kvs"
      using r2 by (simp add: bindE_def)
    from Cons.IH [OF vs ok] show ?thesis unfolding a b .
  qed
qed


lemma maskKind_VStruct:
  "maskKind r reg ov ad h (VStruct fs)
     = bindE (maskFields r reg ov ad h fs) (\<lambda>(fs', h'). Inr (VStruct fs', h'))"
  by (simp add: maskKind_def)

lemma maskKind_VArray:
  "maskKind r reg ov ad h (VArray vs)
     = bindE (maskElems r ad h vs) (\<lambda>(vs', h'). Inr (VArray vs', h'))"
  by (simp add: maskKind_def)

lemma maskKind_VSlice:
  "heapGet h a = Some (Elems vs) \<Longrightarrow>
     maskKind r reg ov ad h (VSlice (Some a))
       = bindE (maskElems r True h vs) (\<lambda>(vs', h'). Inr (VSlice (Some a), h'[a := Elems vs']))"
  by (simp add: maskKind_def)

lemma maskKind_VSlice_bad:
  "\<not> (\<exists>vs. heapGet h a = Some (Elems vs)) \<Longrightarrow>
     maskKind r reg ov ad h (VSlice (Some a)) = Inl BadHeap"
  by (simp add: maskKind_def split: option.splits obj.splits)

lemma maskKind_VMap:
  "heapGet h a = Some (Entries kvs) \<Longrightarrow>
     maskKind r reg ov ad h (VMap (Some a))
       = bindE (maskEntries r h kvs) (\<lambda>h'. Inr (VMap (Some a), h'))"
  by (simp add: maskKind_def)

lemma maskKind_VMap_bad:
  "\<not> (\<exists>kvs. heapGet h a = Some (Entries kvs)) \<Longrightarrow>
     maskKind r reg ov ad h (VMap (Some a)) = Inl BadHeap"
  by (simp add: maskKind_def split: option.splits obj.splits)

lemma maskKind_leaf:
  "maskKind r reg ov ad h VNil = Inr (VNil, h)"
  "maskKind r reg ov ad h (VString s) = Inr (VString s, h)"
  "maskKind r reg ov ad h (VInt i) = Inr (VInt i, h)"
  "maskKind r reg ov ad h (VPtr p) = Inr (VPtr p, h)"
  "maskKind r reg ov ad h (VSlice None) = Inr (VSlice None, h)"
  "maskKind r reg ov ad h (VMap None) = Inr (VMap None, h)"
  by (simp_all add: maskKind_def)

lemma maskKind_agree:
  assumes ag: "agree N r1 r2"
    and ov: "\<And>name. name \<noteq> N \<Longrightarrow> ovLookup ov1 name = ovLookup ov2 name"
    and v: "noField N v" and h: "noFieldHeap N h"
  shows "maskKind r1 reg ov1 ad h v = maskKind r2 reg ov2 ad h v
         \<and> (\<forall>v' h'. maskKind r1 reg ov1 ad h v = Inr (v', h')
               \<longrightarrow> noField N v' \<and> noFieldHeap N h')"
proof (cases v)
  case (VStruct fs)
  with v have "list_all (noFieldF N) fs" by simp
  from maskFields_agree [OF ag ov this h, of reg ad]
  have e: "maskFields r1 reg ov1 ad h fs = maskFields r2 reg ov2 ad h fs"
    and p: "\<And>fs' h'. maskFields r1 reg ov1 ad h fs = Inr (fs', h')
              \<Longrightarrow> list_all (noFieldF N) fs' \<and> noFieldHeap N h'"
    by blast+
  show ?thesis
  proof (intro conjI allI impI)
    show "maskKind r1 reg ov1 ad h v = maskKind r2 reg ov2 ad h v"
      unfolding VStruct maskKind_VStruct e by (rule refl)
  next
    fix v' h'
    assume "maskKind r1 reg ov1 ad h v = Inr (v', h')"
    then obtain fs' where r: "maskFields r1 reg ov1 ad h fs = Inr (fs', h')"
      and v': "v' = VStruct fs'"
      unfolding VStruct maskKind_VStruct by (auto simp add: bindE_Inr_iff)
    from p [OF r] v' show "noField N v'" "noFieldHeap N h'" by simp_all
  qed
next
  case (VArray vs)
  with v have "list_all (noField N) vs" by simp
  from maskElems_agree [OF ag this h, of ad]
  have e: "maskElems r1 ad h vs = maskElems r2 ad h vs"
    and p: "\<And>vs' h'. maskElems r1 ad h vs = Inr (vs', h')
              \<Longrightarrow> list_all (noField N) vs' \<and> noFieldHeap N h'"
    by blast+
  show ?thesis
  proof (intro conjI allI impI)
    show "maskKind r1 reg ov1 ad h v = maskKind r2 reg ov2 ad h v"
      unfolding VArray maskKind_VArray e by (rule refl)
  next
    fix v' h'
    assume "maskKind r1 reg ov1 ad h v = Inr (v', h')"
    then obtain vs' where r: "maskElems r1 ad h vs = Inr (vs', h')"
      and v': "v' = VArray vs'"
      unfolding VArray maskKind_VArray by (auto simp add: bindE_Inr_iff)
    from p [OF r] v' show "noField N v'" "noFieldHeap N h'" by simp_all
  qed
next
  case (VSlice q)
  show ?thesis
  proof (cases q)
    case None
    with VSlice h show ?thesis by (simp add: maskKind_leaf)
  next
    case (Some a)
    show ?thesis
    proof (cases "\<exists>vs. heapGet h a = Some (Elems vs)")
      case False
      with VSlice Some show ?thesis by (simp add: maskKind_VSlice_bad)
    next
      case True
      then obtain vs where g: "heapGet h a = Some (Elems vs)" by blast
      from noFieldHeap_get [OF h g] have "list_all (noField N) vs"
        by (simp add: noFieldObj_def)
      from maskElems_agree [OF ag this h, of True]
      have e: "maskElems r1 True h vs = maskElems r2 True h vs"
        and p: "\<And>vs' h'. maskElems r1 True h vs = Inr (vs', h')
                  \<Longrightarrow> list_all (noField N) vs' \<and> noFieldHeap N h'"
        by blast+
      show ?thesis
      proof (intro conjI allI impI)
        show "maskKind r1 reg ov1 ad h v = maskKind r2 reg ov2 ad h v"
          unfolding VSlice Some maskKind_VSlice [OF g] e by (rule refl)
      next
        fix v' h'
        assume "maskKind r1 reg ov1 ad h v = Inr (v', h')"
        then obtain vs' h1 where r: "maskElems r1 True h vs = Inr (vs', h1)"
          and v': "v' = VSlice (Some a)" and h': "h' = h1[a := Elems vs']"
          unfolding VSlice Some maskKind_VSlice [OF g] by (auto simp add: bindE_Inr_iff)
        from p [OF r] have "list_all (noField N) vs'" "noFieldHeap N h1" by simp_all
        then have "noFieldHeap N (h1[a := Elems vs'])"
          by (simp add: noFieldHeap_update noFieldObj_def)
        with v' h' show "noField N v'" "noFieldHeap N h'" by simp_all
      qed
    qed
  qed
next
  case (VMap q)
  show ?thesis
  proof (cases q)
    case None
    with VMap h show ?thesis by (simp add: maskKind_leaf)
  next
    case (Some a)
    show ?thesis
    proof (cases "\<exists>kvs. heapGet h a = Some (Entries kvs)")
      case False
      with VMap Some show ?thesis by (simp add: maskKind_VMap_bad)
    next
      case True
      then obtain kvs where g: "heapGet h a = Some (Entries kvs)" by blast
      from noFieldHeap_get [OF h g] have "list_all (\<lambda>kv. noField N (snd kv)) kvs"
        by (simp add: noFieldObj_def)
      from maskEntries_agree [OF ag this h]
      have e: "maskEntries r1 h kvs = maskEntries r2 h kvs"
        and p: "\<And>h'. maskEntries r1 h kvs = Inr h' \<Longrightarrow> noFieldHeap N h'"
        by blast+
      show ?thesis
      proof (intro conjI allI impI)
        show "maskKind r1 reg ov1 ad h v = maskKind r2 reg ov2 ad h v"
          unfolding VMap Some maskKind_VMap [OF g] e by (rule refl)
      next
        fix v' h'
        assume "maskKind r1 reg ov1 ad h v = Inr (v', h')"
        then have r: "maskEntries r1 h kvs = Inr h'" and v': "v' = VMap (Some a)"
          unfolding VMap Some maskKind_VMap [OF g] by (auto simp add: bindE_Inr_iff)
        from p [OF r] v' show "noField N v'" "noFieldHeap N h'" by simp_all
      qed
    qed
  qed
next
  case VNil
  with h show ?thesis by (simp add: maskKind_leaf)
next
  case (VString s)
  with h show ?thesis by (simp add: maskKind_leaf)
next
  case (VInt i)
  with h show ?thesis by (simp add: maskKind_leaf)
next
  case (VPtr q)
  with h show ?thesis by (simp add: maskKind_leaf)
qed


lemma maskValue_Suc_ptr:
  "heapGet h a = Some (Cell w) \<Longrightarrow>
     maskValue (Suc n) reg ov ad h (VPtr (Some a))
       = bindE (maskKind (maskValue n reg ov) reg ov True h w)
           (\<lambda>(w', h'). Inr (VPtr (Some a), h'[a := Cell w']))"
  by simp

lemma maskValue_Suc_ptr_bad:
  "\<not> (\<exists>w. heapGet h a = Some (Cell w)) \<Longrightarrow>
     maskValue (Suc n) reg ov ad h (VPtr (Some a)) = Inl BadHeap"
  by (simp split: option.splits obj.splits)

lemma maskValue_Suc_other:
  "\<not> (\<exists>a. v = VPtr (Some a)) \<Longrightarrow>
     maskValue (Suc n) reg ov ad h v = maskKind (maskValue n reg ov) reg ov ad h v"
  by (cases v) (simp_all add: maskKind_leaf split: option.splits)

lemma maskValue_agree:
  assumes ov: "\<And>name. name \<noteq> N \<Longrightarrow> ovLookup ov1 name = ovLookup ov2 name"
  shows "agree N (maskValue n reg ov1) (maskValue n reg ov2)"
proof (induction n)
  case 0
  show ?case by (simp add: agree_def)
next
  case (Suc n)
  show ?case
    unfolding agree_def
  proof (intro allI impI, elim conjE)
    fix ad h v
    assume v: "noField N v" and h: "noFieldHeap N h"
    show "maskValue (Suc n) reg ov1 ad h v = maskValue (Suc n) reg ov2 ad h v
          \<and> (\<forall>v' h'. maskValue (Suc n) reg ov1 ad h v = Inr (v', h')
                \<longrightarrow> noField N v' \<and> noFieldHeap N h')"
    proof (cases "\<exists>a. v = VPtr (Some a)")
      case False
      from maskKind_agree [OF Suc.IH ov v h, of reg ad] show ?thesis
        unfolding maskValue_Suc_other [OF False] .
    next
      case True
      then obtain a where a: "v = VPtr (Some a)" by blast
      show ?thesis
      proof (cases "\<exists>w. heapGet h a = Some (Cell w)")
        case False
        show ?thesis unfolding a maskValue_Suc_ptr_bad [OF False] by simp
      next
        case True
        then obtain w where w: "heapGet h a = Some (Cell w)" by blast
        from noFieldHeap_get [OF h w] have nw: "noField N w" by (simp add: noFieldObj_def)
        from maskKind_agree [OF Suc.IH ov nw h, of reg True]
        have e: "maskKind (maskValue n reg ov1) reg ov1 True h w
                   = maskKind (maskValue n reg ov2) reg ov2 True h w"
          and p: "\<And>w' h'. maskKind (maskValue n reg ov1) reg ov1 True h w = Inr (w', h')
                    \<Longrightarrow> noField N w' \<and> noFieldHeap N h'"
          by blast+
        show ?thesis
        proof (intro conjI allI impI)
          show "maskValue (Suc n) reg ov1 ad h v = maskValue (Suc n) reg ov2 ad h v"
            unfolding a maskValue_Suc_ptr [OF w] e by (rule refl)
        next
          fix v' h'
          assume "maskValue (Suc n) reg ov1 ad h v = Inr (v', h')"
          then obtain w' h1
            where r: "maskKind (maskValue n reg ov1) reg ov1 True h w = Inr (w', h1)"
              and v': "v' = VPtr (Some a)" and h': "h' = h1[a := Cell w']"
            unfolding a maskValue_Suc_ptr [OF w] by (auto simp add: bindE_Inr_iff)
          from p [OF r] have "noFieldHeap N (h1[a := Cell w'])"
            by (simp add: noFieldHeap_update noFieldObj_def)
          with v' h' show "noField N v'" "noFieldHeap N h'" by simp_all
        qed
      qed
    qed
  qed
qed

text \<open>
  On a value graph in which no struct field is named \<open>N\<close>, masking gives the same
  result with an entry keyed by \<open>N\<close> as without it.
\<close>

lemma override_without_named_field:
  assumes "noField N v" and "noFieldHeap N h"
  shows "MaskWithOverrides fuel reg h v (Some (m(N \<mapsto> s)))
         = MaskWithOverrides fuel reg h v (Some (m(N := None)))"
proof -
  have "agree N (maskValue fuel reg (Some (m(N \<mapsto> s))))
          (maskValue fuel reg (Some (m(N := None))))"
    by (rule maskValue_agree) (simp add: ovLookup_def)
  from agreeD1 [OF this assms] show ?thesis
    by (simp add: MaskWithOverrides_def)
qed

text \<open>
  Claim C2 says that an override entry matches the top-level field of its name only, and
  that a field of that name inside a nested structure is masked as if the entry were
  absent. It fails: the override set is handed down unchanged to every recursive call, so
  the entry \<open>Name \<mapsto> none\<close> keeps the nested field \<open>Profile.Name\<close> unmasked,
  while without the entry the field is masked by its tag.
\<close>

theorem override_nested_counterexample:
  "MaskWithOverrides 3 maskRegistry
     [Cell (VStruct [StructField ''Profile'' [] True
        (VStruct [StructField ''Name'' ''strategy:partial'' True (VString ''John Doe'')])])]
     (VPtr (Some 0)) (Some [''Name'' \<mapsto> ''none''])
   = Inr [Cell (VStruct [StructField ''Profile'' [] True
        (VStruct [StructField ''Name'' ''strategy:partial'' True (VString ''John Doe'')])])]
   \<and> MaskWithOverrides 3 maskRegistry
     [Cell (VStruct [StructField ''Profile'' [] True
        (VStruct [StructField ''Name'' ''strategy:partial'' True (VString ''John Doe'')])])]
     (VPtr (Some 0)) (Some Map.empty)
   = Inr [Cell (VStruct [StructField ''Profile'' [] True
        (VStruct [StructField ''Name'' ''strategy:partial'' True (VString ''Jo****oe'')])])]"
  by code_simp

section \<open>An override entry as a redeclaration of the fields of its name\<close>

lemma followsD:
  "follows N d r1 r2 \<Longrightarrow>
     r2 ad (redeclareHeap N d h) (redeclare N d v) = redeclareRes N d (r1 ad h v)"
  unfolding follows_def by blast

lemma heapGet_redeclare:
  "heapGet (redeclareHeap N d h) a = map_option (redeclareObj N d) (heapGet h a)"
  by (simp add: heapGet_def redeclareHeap_def)

lemma redeclareHeap_update:
  "redeclareHeap N d (h[a := ob]) = (redeclareHeap N d h)[a := redeclareObj N d ob]"
  by (simp add: redeclareHeap_def map_update)

lemma splitAcc_no_sep: "sep \<notin> set cs \<Longrightarrow> splitAcc sep acc cs = [rev acc @ cs]"
  by (induction cs arbitrary: acc) auto

lemma Split_strategy:
  "CHR '';'' \<notin> set s \<Longrightarrow> Split (''strategy:'' @ s) CHR '';'' = [''strategy:'' @ s]"
  by (simp add: Split_def splitAcc_no_sep)

lemma applyParts_strategy:
  "reg s = Some fn \<Longrightarrow> applyParts reg [''strategy:'' @ s] x = fn x"
  by (cases "fn x") (simp_all add: HasPrefix_def TrimPrefix_def bindE_def)

lemma redeclare_VNil_iff: "(redeclare N d v = VNil) = (v = VNil)"
  by (cases v) simp_all

lemma redeclare_VPtr_iff: "(redeclare N d v = VPtr p) = (v = VPtr p)"
  by (cases v) simp_all


lemma map_sum_bindE:
  "map_sum id g (bindE x k) = bindE x (\<lambda>a. map_sum id g (k a))"
  by (cases x) (simp_all add: bindE_def)

lemma bindE_map_sum:
  "bindE (map_sum id g x) k = bindE x (\<lambda>a. k (g a))"
  by (cases x) (simp_all add: bindE_def)

lemma redeclareF_sel:
  "fname (redeclareF N d f) = fname f"
  "fvalue (redeclareF N d f) = redeclare N d (fvalue f)"
  by (cases f; cases d; simp)+

lemma redeclareF_tag_other: "fname f \<noteq> N \<Longrightarrow> ftag (redeclareF N d f) = ftag f"
  by (cases f) simp

lemma redeclareF_tag_Keep: "ftag (redeclareF N Keep f) = ftag f"
  by (cases f) simp

lemma redeclareF_tag_Retag: "fname f = N \<Longrightarrow> ftag (redeclareF N (Retag t) f) = t"
  by (cases f) simp

lemma redeclareF_exported_other:
  "fname f \<noteq> N \<Longrightarrow> fexported (redeclareF N d f) = fexported f"
  by (cases f) simp

lemma redeclareF_exported_not_Hide:
  "d \<noteq> Hide \<Longrightarrow> fexported (redeclareF N d f) = fexported f"
  by (cases f; cases d; simp)

lemma redeclareF_exported_Hide: "fname f = N \<Longrightarrow> \<not> fexported (redeclareF N Hide f)"
  by (cases f) simp

lemma redeclareF_not_exported: "\<not> fexported f \<Longrightarrow> \<not> fexported (redeclareF N d f)"
  by (cases f; cases d; simp)

lemma redeclareF_SetValue:
  "redeclareF N d (SetValue f v) = SetValue (redeclareF N d f) (redeclare N d v)"
  by (cases f; cases d; simp add: SetValue_def)

lemma redeclareF_SetString:
  "redeclareF N d (SetString f x) = SetString (redeclareF N d f) x"
  by (cases f; cases d; simp add: SetString_def)

lemma redeclare_VString_iff: "(redeclare N d v = VString x) = (v = VString x)"
  by (cases v) simp_all

lemma tagDefault_rec:
  "\<not> (\<exists>x. fvalue f = VString x \<and> ftag f \<noteq> []) \<Longrightarrow>
     tagDefault r reg ad h f = bindE (r ad h (fvalue f)) (\<lambda>(v', h'). Inr (SetValue f v', h'))"
  by (cases "fvalue f") (simp_all add: tagDefault_def)

lemma tagDefault_str:
  "fvalue f = VString x \<Longrightarrow> ftag f \<noteq> [] \<Longrightarrow>
     tagDefault r reg ad h f
       = bindE (applyParts reg (Split (ftag f) CHR '';'') x) (\<lambda>s'. Inr (SetString f s', h))"
  by (simp add: tagDefault_def)


lemma rec_branch_follows:
  assumes fo: "follows N d r1 r2"
  shows "bindE (r2 ad (redeclareHeap N d h) (fvalue (redeclareF N d f)))
           (\<lambda>(v', h'). Inr (SetValue (redeclareF N d f) v', h'))
         = map_sum id (map_prod (redeclareF N d) (redeclareHeap N d))
             (bindE (r1 ad h (fvalue f)) (\<lambda>(v', h'). Inr (SetValue f v', h')))"
proof -
  have eq: "r2 ad (redeclareHeap N d h) (redeclare N d (fvalue f))
              = redeclareRes N d (r1 ad h (fvalue f))"
    by (rule followsD [OF fo])
  show ?thesis
  proof (cases "r1 ad h (fvalue f)")
    case (Inl e)
    then show ?thesis
      by (simp add: redeclareF_sel eq redeclareRes_def bindE_def)
  next
    case (Inr p)
    obtain v' h' where p: "p = (v', h')" by (cases p)
    with Inr show ?thesis
      by (simp add: redeclareF_sel eq redeclareRes_def bindE_def redeclareF_SetValue)
  qed
qed

lemma str_branch_follows:
  "bindE y (\<lambda>s'. Inr (SetString (redeclareF N d f) s', redeclareHeap N d h))
   = map_sum id (map_prod (redeclareF N d) (redeclareHeap N d))
       (bindE y (\<lambda>s'. Inr (SetString f s', h)))"
  by (cases y) (simp_all add: bindE_def redeclareF_SetString)

lemma tagDefault_follows_same:
  assumes fo: "follows N d r1 r2" and tg: "ftag (redeclareF N d f) = ftag f"
  shows "tagDefault r2 reg ad (redeclareHeap N d h) (redeclareF N d f)
         = map_sum id (map_prod (redeclareF N d) (redeclareHeap N d))
             (tagDefault r1 reg ad h f)"
proof (cases "\<exists>x. fvalue f = VString x \<and> ftag f \<noteq> []")
  case True
  then obtain x where x: "fvalue f = VString x" and t: "ftag f \<noteq> []" by blast
  from x have x': "fvalue (redeclareF N d f) = VString x" by (simp add: redeclareF_sel)
  from t tg have t': "ftag (redeclareF N d f) \<noteq> []" by simp
  show ?thesis
    unfolding tagDefault_str [OF x t] tagDefault_str [OF x' t'] tg
    by (rule str_branch_follows)
next
  case False
  then have b: "\<not> (\<exists>x. fvalue (redeclareF N d f) = VString x \<and> ftag (redeclareF N d f) \<noteq> [])"
    by (simp add: redeclareF_sel tg redeclare_VString_iff)
  show ?thesis
    unfolding tagDefault_rec [OF False] tagDefault_rec [OF b]
    by (simp only: rec_branch_follows [OF fo])
qed

lemma tagDefault_follows_nonstr:
  assumes fo: "follows N d r1 r2" and ns: "\<not> (\<exists>x. fvalue f = VString x)"
  shows "tagDefault r2 reg ad (redeclareHeap N d h) (redeclareF N d f)
         = map_sum id (map_prod (redeclareF N d) (redeclareHeap N d))
             (tagDefault r1 reg ad h f)"
proof -
  from ns have a: "\<not> (\<exists>x. fvalue f = VString x \<and> ftag f \<noteq> [])" by blast
  from ns have b: "\<not> (\<exists>x. fvalue (redeclareF N d f) = VString x \<and> ftag (redeclareF N d f) \<noteq> [])"
    by (simp add: redeclareF_sel redeclare_VString_iff)
  show ?thesis
    unfolding tagDefault_rec [OF a] tagDefault_rec [OF b]
    by (simp only: rec_branch_follows [OF fo])
qed


lemma maskField_notset:
  "\<not> CanSet ad f \<Longrightarrow> maskField r reg ov ad h f = Inr (f, h)"
  by (simp add: maskField_def)

lemma maskField_nolookup:
  "CanSet ad f \<Longrightarrow> ovLookup ov (fname f) = None \<Longrightarrow>
     maskField r reg ov ad h f = tagDefault r reg ad h f"
  by (simp add: maskField_def)

lemma maskField_none:
  "CanSet ad f \<Longrightarrow> ovLookup ov (fname f) = Some ''none'' \<Longrightarrow>
     maskField r reg ov ad h f = Inr (f, h)"
  by (simp add: maskField_def)

lemma maskField_apply:
  "CanSet ad f \<Longrightarrow> ovLookup ov (fname f) = Some st \<Longrightarrow> st \<noteq> ''none'' \<Longrightarrow>
     reg st = Some fn \<Longrightarrow> fvalue f = VString x \<Longrightarrow>
     maskField r reg ov ad h f = bindE (fn x) (\<lambda>s'. Inr (SetString f s', h))"
  by (simp add: maskField_def)

lemma maskField_fall_nonstr:
  "CanSet ad f \<Longrightarrow> ovLookup ov (fname f) = Some st \<Longrightarrow> st \<noteq> ''none'' \<Longrightarrow>
     \<not> (\<exists>x. fvalue f = VString x) \<Longrightarrow>
     maskField r reg ov ad h f = tagDefault r reg ad h f"
  by (cases "fvalue f") (simp_all add: maskField_def split: option.splits)

lemma maskField_fall_unreg:
  "CanSet ad f \<Longrightarrow> ovLookup ov (fname f) = Some st \<Longrightarrow> st \<noteq> ''none'' \<Longrightarrow>
     reg st = None \<Longrightarrow>
     maskField r reg ov ad h f = tagDefault r reg ad h f"
  by (simp add: maskField_def)

lemma maskField_follows_other:
  assumes fo: "follows N d r1 r2" and nm: "fname f \<noteq> N"
    and lk: "ovLookup ov2 (fname f) = ovLookup ov1 (fname f)"
  shows "maskField r2 reg ov2 ad (redeclareHeap N d h) (redeclareF N d f)
         = map_sum id (map_prod (redeclareF N d) (redeclareHeap N d))
             (maskField r1 reg ov1 ad h f)"
proof -
  let ?g = "redeclareF N d f"
  have nm': "fname ?g = fname f" by (simp add: redeclareF_sel)
  have tg: "ftag ?g = ftag f" by (rule redeclareF_tag_other [OF nm])
  have cs: "CanSet ad ?g = CanSet ad f"
    by (simp add: CanSet_def redeclareF_exported_other [OF nm])
  note td = tagDefault_follows_same [OF fo tg, of reg ad h]
  show ?thesis
  proof (cases "CanSet ad f")
    case False
    with cs have "\<not> CanSet ad ?g" by simp
    then show ?thesis
      unfolding maskField_notset [OF False] maskField_notset [OF \<open>\<not> CanSet ad ?g\<close>] by simp
  next
    case True
    with cs have cg: "CanSet ad ?g" by simp
    show ?thesis
    proof (cases "ovLookup ov1 (fname f)")
      case None
      with lk nm' have "ovLookup ov2 (fname ?g) = None" by simp
      from maskField_nolookup [OF cg this] maskField_nolookup [OF True None] td
      show ?thesis by simp
    next
      case (Some st)
      with lk nm' have l2: "ovLookup ov2 (fname ?g) = Some st" by simp
      show ?thesis
      proof (cases "st = ''none''")
        case True
        with Some l2 have a: "ovLookup ov1 (fname f) = Some ''none''"
          and b: "ovLookup ov2 (fname ?g) = Some ''none''" by simp_all
        show ?thesis
          unfolding maskField_none [OF \<open>CanSet ad f\<close> a] maskField_none [OF cg b] by simp
      next
        case False
        show ?thesis
        proof (cases "reg st")
          case None
          from maskField_fall_unreg [where reg = reg, OF cg l2 False None]
            maskField_fall_unreg [where reg = reg, OF True Some False None] td
          show ?thesis by simp
        next
          case (Some fn)
          show ?thesis
          proof (cases "\<exists>x. fvalue f = VString x")
            case True
            then obtain x where x: "fvalue f = VString x" by blast
            then have x': "fvalue ?g = VString x" by (simp add: redeclareF_sel)
            show ?thesis
              unfolding maskField_apply [where reg = reg, OF \<open>CanSet ad f\<close> \<open>ovLookup ov1 (fname f) = Some st\<close>
                  False Some x]
                maskField_apply [where reg = reg, OF cg l2 False Some x']
              by (rule str_branch_follows)
          next
            case False
            then have ns': "\<not> (\<exists>x. fvalue ?g = VString x)"
              by (simp add: redeclareF_sel redeclare_VString_iff)
            from maskField_fall_nonstr [OF cg l2 \<open>st \<noteq> ''none''\<close> ns']
              maskField_fall_nonstr [OF True \<open>ovLookup ov1 (fname f) = Some st\<close>
                \<open>st \<noteq> ''none''\<close> False] td
            show ?thesis by simp
          qed
        qed
      qed
    qed
  qed
qed


lemma declOf_none: "declOf reg ''none'' = Hide"
  by (simp add: declOf_def)

lemma declOf_unreg: "s \<noteq> ''none'' \<Longrightarrow> reg s = None \<Longrightarrow> declOf reg s = Keep"
  by (simp add: declOf_def)

lemma declOf_reg:
  "s \<noteq> ''none'' \<Longrightarrow> reg s = Some fn \<Longrightarrow> declOf reg s = Retag (''strategy:'' @ s)"
  by (simp add: declOf_def)

lemma maskField_follows_named:
  assumes fo: "follows N (declOf reg s) r1 r2" and nm: "fname f = N"
    and sc: "s = ''none'' \<or> reg s = None \<or> CHR '';'' \<notin> set s"
  shows "maskField r2 reg (Some (m(N := None))) ad (redeclareHeap N (declOf reg s) h)
           (redeclareF N (declOf reg s) f)
         = map_sum id (map_prod (redeclareF N (declOf reg s)) (redeclareHeap N (declOf reg s)))
             (maskField r1 reg (Some (m(N \<mapsto> s))) ad h f)"
proof -
  let ?d = "declOf reg s"
  let ?g = "redeclareF N ?d f"
  let ?ov1 = "Some (m(N \<mapsto> s))"
  let ?ov2 = "Some (m(N := None))"
  have l1: "ovLookup ?ov1 (fname f) = Some s" using nm by (simp add: ovLookup_def)
  have l2: "ovLookup ?ov2 (fname ?g) = None" using nm by (simp add: ovLookup_def redeclareF_sel)
  show ?thesis
  proof (cases "CanSet ad f")
    case False
    then have ng: "\<not> CanSet ad ?g"
      using redeclareF_not_exported [of f N ?d] by (auto simp add: CanSet_def)
    show ?thesis
      unfolding maskField_notset [OF False] maskField_notset [OF ng] by simp
  next
    case True
    show ?thesis
    proof (cases "s = ''none''")
      case sn: True
      then have d: "?d = Hide" by (simp add: declOf_none)
      from redeclareF_exported_Hide [OF nm] have ng: "\<not> CanSet ad ?g"
        by (simp add: CanSet_def d)
      from l1 sn have l1': "ovLookup ?ov1 (fname f) = Some ''none''" by simp
      show ?thesis
        unfolding maskField_notset [OF ng] maskField_none [OF True l1'] by simp
    next
      case sn: False
      show ?thesis
      proof (cases "reg s")
        case None
        from declOf_unreg [where reg = reg, OF sn None] have d: "?d = Keep" .
        have cg: "CanSet ad ?g"
          using True redeclareF_exported_not_Hide [of ?d N f] d by (simp add: CanSet_def)
        have tg: "ftag ?g = ftag f" using redeclareF_tag_Keep [of N f] d by simp
        from maskField_nolookup [OF cg l2]
          maskField_fall_unreg [where reg = reg, OF True l1 sn None]
          tagDefault_follows_same [OF fo tg, of reg ad h]
        show ?thesis by simp
      next
        case (Some fn)
        from declOf_reg [where reg = reg, OF sn Some] have d: "?d = Retag (''strategy:'' @ s)" .
        have cg: "CanSet ad ?g"
          using True redeclareF_exported_not_Hide [of ?d N f] d by (simp add: CanSet_def)
        have tg: "ftag ?g = ''strategy:'' @ s"
          using redeclareF_tag_Retag [OF nm, of "''strategy:'' @ s"] d by simp
        show ?thesis
        proof (cases "\<exists>x. fvalue f = VString x")
          case False
          from maskField_nolookup [OF cg l2]
            maskField_fall_nonstr [OF True l1 sn False]
            tagDefault_follows_nonstr [OF fo False, of reg ad h]
          show ?thesis by simp
        next
          case True
          then obtain x where x: "fvalue f = VString x" by blast
          then have x': "fvalue ?g = VString x" by (simp add: redeclareF_sel)
          from tg have t': "ftag ?g \<noteq> []" by simp
          from sc sn Some have sc': "CHR '';'' \<notin> set s" by simp
          have ap: "applyParts reg (Split (ftag ?g) CHR '';'') x = fn x"
            unfolding tg Split_strategy [OF sc'] by (rule applyParts_strategy [where reg = reg, OF Some])
          have lhs: "maskField r2 reg ?ov2 ad (redeclareHeap N ?d h) ?g
                       = bindE (fn x) (\<lambda>s'. Inr (SetString ?g s', redeclareHeap N ?d h))"
            unfolding maskField_nolookup [OF cg l2] tagDefault_str [OF x' t'] ap
            by (rule refl)
          show ?thesis
            unfolding lhs maskField_apply [where reg = reg, OF \<open>CanSet ad f\<close> l1 sn Some x]
            by (rule str_branch_follows)
        qed
      qed
    qed
  qed
qed


lemma maskField_follows:
  assumes fo: "follows N (declOf reg s) r1 r2" and sc: "s = ''none'' \<or> reg s = None \<or> CHR '';'' \<notin> set s"
  shows "maskField r2 reg (Some (m(N := None))) ad (redeclareHeap N (declOf reg s) h)
           (redeclareF N (declOf reg s) f)
         = map_sum id (map_prod (redeclareF N (declOf reg s)) (redeclareHeap N (declOf reg s)))
             (maskField r1 reg (Some (m(N \<mapsto> s))) ad h f)"
proof (cases "fname f = N")
  case True
  then show ?thesis by (rule maskField_follows_named [OF fo _ sc])
next
  case False
  then have "ovLookup (Some (m(N := None))) (fname f) = ovLookup (Some (m(N \<mapsto> s))) (fname f)"
    by (simp add: ovLookup_def)
  with False show ?thesis by (rule maskField_follows_other [OF fo])
qed

lemma maskFields_follows:
  assumes mf: "\<And>ad h f. maskField r2 reg ov2 ad (redeclareHeap N d h) (redeclareF N d f)
                 = map_sum id (map_prod (redeclareF N d) (redeclareHeap N d))
                     (maskField r1 reg ov1 ad h f)"
  shows "maskFields r2 reg ov2 ad (redeclareHeap N d h) (map (redeclareF N d) fs)
         = map_sum id (map_prod (map (redeclareF N d)) (redeclareHeap N d))
             (maskFields r1 reg ov1 ad h fs)"
proof (induction fs arbitrary: h)
  case Nil
  show ?case by simp
next
  case (Cons f fs)
  show ?case
  proof (cases "maskField r1 reg ov1 ad h f")
    case (Inl e)
    with mf [of ad h f] show ?thesis by (simp add: bindE_def)
  next
    case (Inr p)
    obtain f1 h1 where p: "p = (f1, h1)" by (cases p)
    show ?thesis
    proof (cases "maskFields r1 reg ov1 ad h1 fs")
      case (Inl e)
      with mf [of ad h f] Inr p Cons.IH [of h1] show ?thesis by (simp add: bindE_def)
    next
      case r: (Inr q)
      obtain fs1 h2 where q: "q = (fs1, h2)" by (cases q)
      with mf [of ad h f] Inr p r Cons.IH [of h1] show ?thesis by (simp add: bindE_def)
    qed
  qed
qed

lemma maskElems_follows:
  assumes fo: "follows N d r1 r2"
  shows "maskElems r2 ad (redeclareHeap N d h) (map (redeclare N d) vs)
         = map_sum id (map_prod (map (redeclare N d)) (redeclareHeap N d))
             (maskElems r1 ad h vs)"
proof (induction vs arbitrary: h)
  case Nil
  show ?case by simp
next
  case (Cons v vs)
  note e = followsD [OF fo, of ad h v]
  show ?case
  proof (cases "r1 ad h v")
    case (Inl e1)
    with e show ?thesis by (simp add: bindE_def redeclareRes_def)
  next
    case (Inr p)
    obtain v1 h1 where p: "p = (v1, h1)" by (cases p)
    show ?thesis
    proof (cases "maskElems r1 ad h1 vs")
      case (Inl e1)
      with e Inr p Cons.IH [of h1] show ?thesis by (simp add: bindE_def redeclareRes_def)
    next
      case r: (Inr q)
      obtain vs1 h2 where q: "q = (vs1, h2)" by (cases q)
      with e Inr p r Cons.IH [of h1] show ?thesis by (simp add: bindE_def redeclareRes_def)
    qed
  qed
qed

lemma maskEntries_follows:
  assumes fo: "follows N d r1 r2"
  shows "maskEntries r2 (redeclareHeap N d h)
           (map (\<lambda>kv. (fst kv, redeclare N d (snd kv))) kvs)
         = map_sum id (redeclareHeap N d) (maskEntries r1 h kvs)"
proof (induction kvs arbitrary: h)
  case Nil
  show ?case by simp
next
  case (Cons kv kvs)
  note e = followsD [OF fo, of False h "snd kv"]
  show ?case
  proof (cases "r1 False h (snd kv)")
    case (Inl e1)
    with e show ?thesis by (simp add: bindE_def redeclareRes_def)
  next
    case (Inr p)
    obtain v1 h1 where p: "p = (v1, h1)" by (cases p)
    with e Inr Cons.IH [of h1] show ?thesis by (simp add: bindE_def redeclareRes_def)
  qed
qed


lemma redeclareRes_simps:
  "redeclareRes N d (Inl e) = Inl e"
  "redeclareRes N d (Inr (v, h)) = Inr (redeclare N d v, redeclareHeap N d h)"
  by (simp_all add: redeclareRes_def)

lemma redeclareRes_bindE:
  "redeclareRes N d (bindE x k) = bindE x (\<lambda>a. redeclareRes N d (k a))"
  by (cases x) (simp_all add: bindE_def redeclareRes_def)

lemma maskKind_follows:
  assumes fo: "follows N d r1 r2"
    and mf: "\<And>ad h f. maskField r2 reg ov2 ad (redeclareHeap N d h) (redeclareF N d f)
                 = map_sum id (map_prod (redeclareF N d) (redeclareHeap N d))
                     (maskField r1 reg ov1 ad h f)"
  shows "maskKind r2 reg ov2 ad (redeclareHeap N d h) (redeclare N d v)
         = redeclareRes N d (maskKind r1 reg ov1 ad h v)"
proof (cases v)
  case (VStruct fs)
  note e = maskFields_follows [where ?r1.0 = r1 and ?r2.0 = r2, OF mf, of ad h fs]
  show ?thesis
  proof (cases "maskFields r1 reg ov1 ad h fs")
    case (Inl x)
    with e VStruct show ?thesis
      by (simp add: maskKind_VStruct bindE_def redeclareRes_simps)
  next
    case (Inr p)
    obtain fs1 h1 where "p = (fs1, h1)" by (cases p)
    with e Inr VStruct show ?thesis
      by (simp add: maskKind_VStruct bindE_def redeclareRes_simps)
  qed
next
  case (VArray vs)
  note e = maskElems_follows [OF fo, of ad h vs]
  show ?thesis
  proof (cases "maskElems r1 ad h vs")
    case (Inl x)
    with e VArray show ?thesis
      by (simp add: maskKind_VArray bindE_def redeclareRes_simps)
  next
    case (Inr p)
    obtain vs1 h1 where "p = (vs1, h1)" by (cases p)
    with e Inr VArray show ?thesis
      by (simp add: maskKind_VArray bindE_def redeclareRes_simps)
  qed
next
  case (VSlice q)
  show ?thesis
  proof (cases q)
    case None
    with VSlice show ?thesis by (simp add: maskKind_leaf redeclareRes_simps)
  next
    case (Some a)
    show ?thesis
    proof (cases "\<exists>vs. heapGet h a = Some (Elems vs)")
      case False
      then have "\<not> (\<exists>vs. heapGet (redeclareHeap N d h) a = Some (Elems vs))"
        by (cases "heapGet h a")
          (auto simp add: heapGet_redeclare redeclareObj_def split: obj.splits)
      with False VSlice Some show ?thesis
        by (simp add: maskKind_VSlice_bad redeclareRes_simps)
    next
      case True
      then obtain vs where g: "heapGet h a = Some (Elems vs)" by blast
      then have g': "heapGet (redeclareHeap N d h) a = Some (Elems (map (redeclare N d) vs))"
        by (simp add: heapGet_redeclare redeclareObj_def)
      note e = maskElems_follows [OF fo, of True h vs]
      show ?thesis
      proof (cases "maskElems r1 True h vs")
        case (Inl x)
        with e VSlice Some show ?thesis
          by (simp add: maskKind_VSlice [OF g] maskKind_VSlice [OF g'] bindE_def
              redeclareRes_simps)
      next
        case (Inr p)
        obtain vs1 h1 where "p = (vs1, h1)" by (cases p)
        with e Inr VSlice Some show ?thesis
          by (simp add: maskKind_VSlice [OF g] maskKind_VSlice [OF g'] bindE_def
              redeclareRes_simps redeclareHeap_update redeclareObj_def)
      qed
    qed
  qed
next
  case (VMap q)
  show ?thesis
  proof (cases q)
    case None
    with VMap show ?thesis by (simp add: maskKind_leaf redeclareRes_simps)
  next
    case (Some a)
    show ?thesis
    proof (cases "\<exists>kvs. heapGet h a = Some (Entries kvs)")
      case False
      then have "\<not> (\<exists>kvs. heapGet (redeclareHeap N d h) a = Some (Entries kvs))"
        by (cases "heapGet h a")
          (auto simp add: heapGet_redeclare redeclareObj_def split: obj.splits)
      with False VMap Some show ?thesis
        by (simp add: maskKind_VMap_bad redeclareRes_simps)
    next
      case True
      then obtain kvs where g: "heapGet h a = Some (Entries kvs)" by blast
      then have g': "heapGet (redeclareHeap N d h) a
                       = Some (Entries (map (\<lambda>kv. (fst kv, redeclare N d (snd kv))) kvs))"
        by (simp add: heapGet_redeclare redeclareObj_def)
      note e = maskEntries_follows [OF fo, of h kvs]
      show ?thesis
      proof (cases "maskEntries r1 h kvs")
        case (Inl x)
        with e VMap Some show ?thesis
          by (simp add: maskKind_VMap [OF g] maskKind_VMap [OF g'] bindE_def
              redeclareRes_simps)
      next
        case (Inr h1)
        with e VMap Some show ?thesis
          by (simp add: maskKind_VMap [OF g] maskKind_VMap [OF g'] bindE_def
              redeclareRes_simps)
      qed
    qed
  qed
qed (simp_all add: maskKind_leaf redeclareRes_simps)

lemma maskValue_follows:
  assumes mf: "\<And>r1 r2 ad h f. follows N d r1 r2 \<Longrightarrow>
                 maskField r2 reg ov2 ad (redeclareHeap N d h) (redeclareF N d f)
                 = map_sum id (map_prod (redeclareF N d) (redeclareHeap N d))
                     (maskField r1 reg ov1 ad h f)"
  shows "follows N d (maskValue n reg ov1) (maskValue n reg ov2)"
proof (induction n)
  case 0
  show ?case by (simp add: follows_def redeclareRes_simps)
next
  case (Suc n)
  note mk = maskKind_follows [OF Suc.IH mf [OF Suc.IH]]
  show ?case
    unfolding follows_def
  proof (intro allI)
    fix ad h v
    show "maskValue (Suc n) reg ov2 ad (redeclareHeap N d h) (redeclare N d v)
          = redeclareRes N d (maskValue (Suc n) reg ov1 ad h v)"
    proof (cases "\<exists>a. v = VPtr (Some a)")
      case False
      then have f': "\<not> (\<exists>a. redeclare N d v = VPtr (Some a))"
        by (simp add: redeclare_VPtr_iff)
      show ?thesis
        unfolding maskValue_Suc_other [OF False] maskValue_Suc_other [OF f']
        by (rule mk)
    next
      case True
      then obtain a where a: "v = VPtr (Some a)" by blast
      show ?thesis
      proof (cases "\<exists>w. heapGet h a = Some (Cell w)")
        case False
        then have f': "\<not> (\<exists>w. heapGet (redeclareHeap N d h) a = Some (Cell w))"
          by (cases "heapGet h a")
            (auto simp add: heapGet_redeclare redeclareObj_def split: obj.splits)
        show ?thesis
          unfolding a redeclare.simps maskValue_Suc_ptr_bad [OF False]
            maskValue_Suc_ptr_bad [OF f']
          by (simp add: redeclareRes_simps)
      next
        case True
        then obtain w where g: "heapGet h a = Some (Cell w)" by blast
        then have g': "heapGet (redeclareHeap N d h) a = Some (Cell (redeclare N d w))"
          by (simp add: heapGet_redeclare redeclareObj_def)
        note e = mk [of True h w]
        show ?thesis
        proof (cases "maskKind (maskValue n reg ov1) reg ov1 True h w")
          case (Inl x)
          with e a show ?thesis
            by (simp only: redeclare.simps maskValue_Suc_ptr [OF g] maskValue_Suc_ptr [OF g'])
              (simp add: bindE_def redeclareRes_simps)
        next
          case (Inr p)
          obtain w1 h1 where "p = (w1, h1)" by (cases p)
          with e Inr a show ?thesis
            by (simp only: redeclare.simps maskValue_Suc_ptr [OF g] maskValue_Suc_ptr [OF g'])
              (simp add: bindE_def redeclareRes_simps redeclareHeap_update redeclareObj_def)
        qed
      qed
    qed
  qed
qed

text \<open>
  Claim C2, amended. Override-set entries match exact field names at every depth of the
  walk, not only at the top level. An entry \<open>N \<mapsto> s\<close> acts on every field named
  \<open>N\<close> that can be set, whether it is a field of the struct handed to the call or of
  a struct nested in it, held in a slice or an array, or reached through a pointer or a
  map, and on no field of another name: masking with the entry gives exactly the result of masking, without
  the entry, the value graph in which every field named \<open>N\<close> is declared anew at every
  depth (passed over for \<open>none\<close>, tagged \<open>strategy:s\<close> for a registered \<open>s\<close>, left
  as it is for an unregistered \<open>s\<close>), every field of another name being declared as
  before. A registered name \<open>s\<close> is one that a tag can hold, without a semicolon.
\<close>

theorem override_entry_redeclares:
  assumes "s = ''none'' \<or> reg s = None \<or> CHR '';'' \<notin> set s"
  shows "MaskWithOverrides fuel reg (redeclareHeap N (declOf reg s) h)
           (redeclare N (declOf reg s) v) (Some (m(N := None)))
         = map_sum id (redeclareHeap N (declOf reg s))
             (MaskWithOverrides fuel reg h v (Some (m(N \<mapsto> s))))"
proof -
  have "follows N (declOf reg s) (maskValue fuel reg (Some (m(N \<mapsto> s))))
          (maskValue fuel reg (Some (m(N := None))))"
    by (rule maskValue_follows)
      (rule maskField_follows [where reg = reg and s = s, OF _ assms])
  from followsD [OF this, of False h v] show ?thesis
    by (cases "maskValue fuel reg (Some (m(N \<mapsto> s))) False h v")
      (auto simp add: MaskWithOverrides_def bindE_def redeclareRes_def)
qed


theorem override_entry_redeclares_witness:
  "(''full'' = ''none'' \<or> maskRegistry ''full'' = None \<or> CHR '';'' \<notin> set ''full'')
   \<and> MaskWithOverrides 3 maskRegistry
       [Cell (VStruct [StructField ''Profile'' [] True
          (VStruct [StructField ''Name'' ''strategy:partial'' True (VString ''John Doe'')])])]
       (VPtr (Some 0)) (Some [''Name'' \<mapsto> ''full''])
     = Inr [Cell (VStruct [StructField ''Profile'' [] True
          (VStruct [StructField ''Name'' ''strategy:partial'' True (VString ''********'')])])]
   \<and> MaskWithOverrides 3 maskRegistry
       [Cell (VStruct [StructField ''Profile'' [] True
          (VStruct [StructField ''Name'' ''strategy:full'' True (VString ''John Doe'')])])]
       (VPtr (Some 0)) (Some (Map.empty(''Name'' := None)))
     = Inr [Cell (VStruct [StructField ''Profile'' [] True
          (VStruct [StructField ''Name'' ''strategy:full'' True (VString ''********'')])])]"
proof -
  let ?h = "[Cell (VStruct [StructField ''Profile'' [] True
          (VStruct [StructField ''Name'' ''strategy:partial'' True (VString ''John Doe'')])])]"
  have hs: "''full'' = ''none'' \<or> maskRegistry ''full'' = None \<or> CHR '';'' \<notin> set ''full''"
    by simp
  have d: "declOf maskRegistry ''full'' = Retag ''strategy:full''"
    by (simp add: declOf_def maskRegistry_lookup)
  have ev: "MaskWithOverrides 3 maskRegistry ?h (VPtr (Some 0)) (Some [''Name'' \<mapsto> ''full''])
     = Inr [Cell (VStruct [StructField ''Profile'' [] True
          (VStruct [StructField ''Name'' ''strategy:partial'' True (VString ''********'')])])]"
    by code_simp
  from override_entry_redeclares [where s = "''full''" and fuel = 3 and reg = maskRegistry
      and N = "''Name''" and h = ?h and v = "VPtr (Some 0)" and m = Map.empty] ev d hs
  show ?thesis by (simp add: redeclareHeap_def redeclareObj_def)
qed

section \<open>The recursion bound\<close>

text \<open>
  The bound on the depth of the recursion is only a bound: a result other than
  \<open>Diverged\<close> is the result under every larger bound.
\<close>

lemma extendsD: "extends r1 r2 \<Longrightarrow> r1 ad h v \<noteq> Inl Diverged \<Longrightarrow> r2 ad h v = r1 ad h v"
  unfolding extends_def by blast

lemma bindE_not_Diverged: "bindE x k \<noteq> Inl Diverged \<Longrightarrow> x \<noteq> Inl Diverged"
  by (auto simp add: bindE_def)

lemma bindE_Inr: "x = Inr a \<Longrightarrow> bindE x k = k a"
  by (simp add: bindE_def)

lemma bindE_Inl: "x = Inl e \<Longrightarrow> bindE x k = Inl e"
  by (simp add: bindE_def)

lemma tagDefault_extends:
  assumes ex: "extends r1 r2" and nd: "tagDefault r1 reg ad h f \<noteq> Inl Diverged"
  shows "tagDefault r2 reg ad h f = tagDefault r1 reg ad h f"
proof -
  from tagDefault_cases [of f r1 reg ad h] show ?thesis
  proof (elim disjE exE conjE)
    fix s
    assume "fvalue f = VString s" "ftag f \<noteq> []"
    then show ?thesis by (simp add: tagDefault_def)
  next
    assume a: "tagDefault r1 reg ad h f
                 = bindE (r1 ad h (fvalue f)) (\<lambda>(v', h'). Inr (SetValue f v', h'))"
    with nd have "r1 ad h (fvalue f) \<noteq> Inl Diverged"
      by (auto dest: bindE_not_Diverged)
    from extendsD [OF ex this] have eq: "r2 ad h (fvalue f) = r1 ad h (fvalue f)" .
    show ?thesis unfolding tagDefault_def eq by (rule refl)
  qed
qed

lemma maskField_extends:
  assumes ex: "extends r1 r2" and nd: "maskField r1 reg ov ad h f \<noteq> Inl Diverged"
  shows "maskField r2 reg ov ad h f = maskField r1 reg ov ad h f"
proof (cases "maskField r1 reg ov ad h f = tagDefault r1 reg ad h f")
  case True
  with nd have "tagDefault r1 reg ad h f \<noteq> Inl Diverged" by simp
  from tagDefault_extends [OF ex this]
  have eq: "tagDefault r2 reg ad h f = tagDefault r1 reg ad h f" .
  show ?thesis unfolding maskField_def eq by (rule refl)
next
  case False
  then show ?thesis
    by (simp add: maskField_def split: if_splits option.splits val.splits)
qed


lemma maskFields_extends:
  assumes ex: "extends r1 r2"
  shows "maskFields r1 reg ov ad h fs \<noteq> Inl Diverged \<Longrightarrow>
           maskFields r2 reg ov ad h fs = maskFields r1 reg ov ad h fs"
proof (induction fs arbitrary: h)
  case Nil
  show ?case by simp
next
  case (Cons f fs)
  from Cons.prems have "maskField r1 reg ov ad h f \<noteq> Inl Diverged"
    by (auto dest: bindE_not_Diverged)
  from maskField_extends [OF ex this]
  have eq: "maskField r2 reg ov ad h f = maskField r1 reg ov ad h f" .
  show ?case
  proof (cases "maskField r1 reg ov ad h f")
    case (Inl e)
    with eq show ?thesis by (simp add: bindE_Inl)
  next
    case (Inr p)
    obtain f1 h1 where p: "p = (f1, h1)" by (cases p)
    from Cons.prems Inr p have "maskFields r1 reg ov ad h1 fs \<noteq> Inl Diverged"
      by (auto simp add: bindE_def split: sum.splits)
    from Cons.IH [OF this] eq Inr p show ?thesis by (simp add: bindE_def)
  qed
qed

lemma maskElems_extends:
  assumes ex: "extends r1 r2"
  shows "maskElems r1 ad h vs \<noteq> Inl Diverged \<Longrightarrow> maskElems r2 ad h vs = maskElems r1 ad h vs"
proof (induction vs arbitrary: h)
  case Nil
  show ?case by simp
next
  case (Cons v vs)
  from Cons.prems have "r1 ad h v \<noteq> Inl Diverged"
    by (auto dest: bindE_not_Diverged)
  from extendsD [OF ex this] have eq: "r2 ad h v = r1 ad h v" .
  show ?case
  proof (cases "r1 ad h v")
    case (Inl e)
    with eq show ?thesis by (simp add: bindE_Inl)
  next
    case (Inr p)
    obtain v1 h1 where p: "p = (v1, h1)" by (cases p)
    from Cons.prems Inr p have "maskElems r1 ad h1 vs \<noteq> Inl Diverged"
      by (auto simp add: bindE_def split: sum.splits)
    from Cons.IH [OF this] eq Inr p show ?thesis by (simp add: bindE_def)
  qed
qed

lemma maskEntries_extends:
  assumes ex: "extends r1 r2"
  shows "maskEntries r1 h kvs \<noteq> Inl Diverged \<Longrightarrow> maskEntries r2 h kvs = maskEntries r1 h kvs"
proof (induction kvs arbitrary: h)
  case Nil
  show ?case by simp
next
  case (Cons kv kvs)
  from Cons.prems have "r1 False h (snd kv) \<noteq> Inl Diverged"
    by (auto dest: bindE_not_Diverged)
  from extendsD [OF ex this] have eq: "r2 False h (snd kv) = r1 False h (snd kv)" .
  show ?case
  proof (cases "r1 False h (snd kv)")
    case (Inl e)
    with eq show ?thesis by (simp add: bindE_Inl)
  next
    case (Inr p)
    obtain v1 h1 where p: "p = (v1, h1)" by (cases p)
    from Cons.prems Inr p have "maskEntries r1 h1 kvs \<noteq> Inl Diverged"
      by (simp add: bindE_def)
    from Cons.IH [OF this] eq Inr p show ?thesis by (simp add: bindE_def)
  qed
qed

lemma maskKind_extends:
  assumes ex: "extends r1 r2" and nd: "maskKind r1 reg ov ad h v \<noteq> Inl Diverged"
  shows "maskKind r2 reg ov ad h v = maskKind r1 reg ov ad h v"
proof (cases v)
  case (VStruct fs)
  with nd have "maskFields r1 reg ov ad h fs \<noteq> Inl Diverged"
    by (auto simp add: maskKind_VStruct bindE_def)
  from maskFields_extends [OF ex this]
  have eq: "maskFields r2 reg ov ad h fs = maskFields r1 reg ov ad h fs" .
  show ?thesis unfolding VStruct maskKind_VStruct eq by (rule refl)
next
  case (VArray vs)
  with nd have "maskElems r1 ad h vs \<noteq> Inl Diverged"
    by (auto simp add: maskKind_VArray bindE_def)
  from maskElems_extends [OF ex this]
  have eq: "maskElems r2 ad h vs = maskElems r1 ad h vs" .
  show ?thesis unfolding VArray maskKind_VArray eq by (rule refl)
next
  case (VSlice q)
  show ?thesis
  proof (cases q)
    case None
    with VSlice show ?thesis by (simp add: maskKind_leaf)
  next
    case (Some a)
    show ?thesis
    proof (cases "\<exists>vs. heapGet h a = Some (Elems vs)")
      case False
      with VSlice Some show ?thesis by (simp add: maskKind_VSlice_bad)
    next
      case True
      then obtain vs where g: "heapGet h a = Some (Elems vs)" by blast
      from nd VSlice Some have "maskElems r1 True h vs \<noteq> Inl Diverged"
        by (auto simp add: maskKind_VSlice [OF g] bindE_def)
      from maskElems_extends [OF ex this]
      have eq: "maskElems r2 True h vs = maskElems r1 True h vs" .
      show ?thesis unfolding VSlice Some maskKind_VSlice [OF g] eq by (rule refl)
    qed
  qed
next
  case (VMap q)
  show ?thesis
  proof (cases q)
    case None
    with VMap show ?thesis by (simp add: maskKind_leaf)
  next
    case (Some a)
    show ?thesis
    proof (cases "\<exists>kvs. heapGet h a = Some (Entries kvs)")
      case False
      with VMap Some show ?thesis by (simp add: maskKind_VMap_bad)
    next
      case True
      then obtain kvs where g: "heapGet h a = Some (Entries kvs)" by blast
      from nd VMap Some have "maskEntries r1 h kvs \<noteq> Inl Diverged"
        by (auto simp add: maskKind_VMap [OF g] bindE_def)
      from maskEntries_extends [OF ex this]
      have eq: "maskEntries r2 h kvs = maskEntries r1 h kvs" .
      show ?thesis unfolding VMap Some maskKind_VMap [OF g] eq by (rule refl)
    qed
  qed
qed (simp_all add: maskKind_leaf)

lemma maskValue_extends: "extends (maskValue n reg ov) (maskValue (Suc n) reg ov)"
proof (induction n)
  case 0
  show ?case by (simp add: extends_def)
next
  case (Suc n)
  show ?case
    unfolding extends_def
  proof (intro allI impI)
    fix ad h v
    assume nd: "maskValue (Suc n) reg ov ad h v \<noteq> Inl Diverged"
    show "maskValue (Suc (Suc n)) reg ov ad h v = maskValue (Suc n) reg ov ad h v"
    proof (cases "\<exists>a. v = VPtr (Some a)")
      case False
      from nd have "maskKind (maskValue n reg ov) reg ov ad h v \<noteq> Inl Diverged"
        unfolding maskValue_Suc_other [OF False] .
      from maskKind_extends [OF Suc.IH this] show ?thesis
        unfolding maskValue_Suc_other [OF False] .
    next
      case True
      then obtain a where a: "v = VPtr (Some a)" by blast
      show ?thesis
      proof (cases "\<exists>w. heapGet h a = Some (Cell w)")
        case False
        show ?thesis unfolding a maskValue_Suc_ptr_bad [OF False] by (rule refl)
      next
        case True
        then obtain w where w: "heapGet h a = Some (Cell w)" by blast
        from nd have "bindE (maskKind (maskValue n reg ov) reg ov True h w)
                        (\<lambda>(w', h'). Inr (VPtr (Some a), h'[a := Cell w'])) \<noteq> Inl Diverged"
          unfolding a maskValue_Suc_ptr [OF w] .
        then have "maskKind (maskValue n reg ov) reg ov True h w \<noteq> Inl Diverged"
          by (rule bindE_not_Diverged)
        from maskKind_extends [OF Suc.IH this]
        have eq: "maskKind (maskValue (Suc n) reg ov) reg ov True h w
                    = maskKind (maskValue n reg ov) reg ov True h w" .
        show ?thesis unfolding a maskValue_Suc_ptr [OF w] eq by (rule refl)
      qed
    qed
  qed
qed

lemma maskValue_more_fuel:
  "maskValue n reg ov ad h v \<noteq> Inl Diverged \<Longrightarrow>
     maskValue (n + k) reg ov ad h v = maskValue n reg ov ad h v"
proof (induction k)
  case 0
  show ?case by simp
next
  case (Suc k)
  then have "maskValue (n + k) reg ov ad h v \<noteq> Inl Diverged" by simp
  from extendsD [OF maskValue_extends this] Suc show ?case by simp
qed

lemma MaskWithOverrides_more_fuel:
  "MaskWithOverrides n reg h v ov = Inr h' \<Longrightarrow> MaskWithOverrides (n + k) reg h v ov = Inr h'"
proof -
  assume a: "MaskWithOverrides n reg h v ov = Inr h'"
  then have "maskValue n reg ov False h v \<noteq> Inl Diverged"
    by (auto simp add: MaskWithOverrides_def bindE_def)
  from maskValue_more_fuel [OF this, of k] a show ?thesis
    by (simp add: MaskWithOverrides_def)
qed

section \<open>Further facts about the entry points\<close>

text \<open>
  \<open>MaskCopy\<close> hands back a nil interface, a nil pointer and every value that is not a
  pointer as it received it, and leaves the store alone.
\<close>

lemma MaskCopy_not_pointer:
  "\<not> (\<exists>a. v = VPtr (Some a)) \<Longrightarrow> MaskCopy fuel reg h v ov = Inr (v, h)"
  by (cases v) (simp_all add: MaskCopy_def split: option.splits)

text \<open>Every strategy that \<open>init\<close> installs maps the empty string to the empty string.\<close>

lemma builtin_empty:
  "regIndex maskRegistry ''partial'' [] = Inr []"
  "regIndex maskRegistry ''full'' [] = Inr []"
  "regIndex maskRegistry ''email'' [] = Inr []"
  "regIndex maskRegistry ''phone'' [] = Inr []"
  "regIndex maskRegistry ''creditcard'' [] = Inr []"
  "regIndex maskRegistry ''dob'' [] = Inr []"
  "regIndex maskRegistry ''password'' [] = Inr []"
  "regIndex maskRegistry ''token'' [] = Inr []"
  "regIndex maskRegistry ''PII'' [] = Inr []"
  "regIndex maskRegistry ''PHI'' [] = Inr []"
  "regIndex maskRegistry ''PCI'' [] = Inr []"
  "regIndex maskRegistry ''CREDENTIALS'' [] = Inr []"
  "regIndex maskRegistry ''FINANCIAL'' [] = Inr []"
  "regIndex maskRegistry ''GDPR'' [] = Inr []"
  "regIndex maskRegistry ''none'' [] = Inr []"
  by (simp_all add: regIndex_def maskRegistry_lookup partial_fn_rule full_fn_rule phone_fn_rule
      creditcard_fn_rule dob_fn_rule password_fn_rule token_fn_rule none_fn_def
      email_fn_def Split_def Repeat_def len_def)

text \<open>
  The \<open>email\<close> strategy returns on every input whose part before the only \<open>@\<close> is not
  empty, and on every input with no \<open>@\<close> or more than one.
\<close>

lemma email_fn_returns:
  "length (Split s CHR ''@'') \<noteq> 2 \<or> Split s CHR ''@'' ! 0 \<noteq> [] \<Longrightarrow> \<exists>t. email_fn s = Inr t"
proof (cases "length (Split s CHR ''@'') = 2")
  case False
  then show ?thesis by (simp add: email_fn_def Repeat_len)
next
  case True
  assume "length (Split s CHR ''@'') \<noteq> 2 \<or> Split s CHR ''@'' ! 0 \<noteq> []"
  with True have ne: "Split s CHR ''@'' ! 0 \<noteq> []" by simp
  then have a: "1 \<le> length (Split s CHR ''@'' ! 0)"
    by (cases "Split s CHR ''@'' ! 0") simp_all
  from substr_prefix [OF a] Repeat_len_minus [OF a] True show ?thesis
    by (simp add: email_fn_def bindE_def Let_def)
qed

lemma email_fn_panics:
  "length (Split s CHR ''@'') = 2 \<Longrightarrow> Split s CHR ''@'' ! 0 = [] \<Longrightarrow> email_fn s = Inl Panic"
  by (simp add: email_fn_def Let_def substr_def len_def bindE_def)

text \<open>
  A struct that is not addressable is left as it is: none of its fields can be set, so
  the loop over the fields skips every one of them. This is what happens to a struct
  obtained from a map through \<open>MapIndex\<close>, and to a struct handed to an entry point by
  value.
\<close>

lemma maskField_not_addressable: "maskField rec reg ov False h f = Inr (f, h)"
  by (simp add: maskField_def CanSet_def)

lemma maskFields_not_addressable: "maskFields rec reg ov False h fs = Inr (fs, h)"
  by (induction fs) (simp_all add: maskField_not_addressable bindE_def)

lemma struct_not_addressable:
  "maskValue (Suc n) reg ov False h (VStruct fs) = Inr (VStruct fs, h)"
  by (simp add: maskKind_VStruct maskFields_not_addressable bindE_def)

end
